theory Spec2Isabelle
  imports Main "HOL-Library.Word" "HOL-Library.Product_Lexorder"
begin

unbundle bit_operations_syntax

section \<open>Common types\<close>

text \<open>
  \<open>Oid\<close> and \<open>BlockNumber\<close> are unsigned 32-bit integers; \<open>ForkNumber\<close> is an
  enum with the negative member \<open>InvalidForkNumber = -1\<close>, hence a signed 32-bit
  integer: it is kept as a 32-bit word and compared through \<open>sint\<close>.
\<close>

type_synonym byte = "8 word"
type_synonym Oid = "32 word"
type_synonym ForkNumber = "32 word"
type_synonym BlockNumber = "32 word"

definition InvalidOid :: Oid where
  "InvalidOid = 0"

definition InvalidForkNumber :: ForkNumber where
  "InvalidForkNumber = - 1"

definition InvalidBlockNumber :: BlockNumber where
  "InvalidBlockNumber = 0xFFFFFFFF"

text \<open>
  \<open>ereport(ERROR, ...)\<close> leaves the function at once and the worker exits abnormally;
  a failed \<open>Assert\<close> aborts the process, but only in a build with assertion checking
  (\<open>USE_ASSERT_CHECKING\<close>); using a null \<open>FILE *\<close> or a null \<open>Relation\<close> crashes.
\<close>

datatype error =
    ERROR string
  | TRAP_FailedAssertion
  | NullPointer

record build_env =
  assert_checking :: bool

section \<open>Restore scheduler\<close>

datatype BgwHandleStatus =
    BGWH_STARTED
  | BGWH_NOT_YET_STARTED
  | BGWH_STOPPED
  | BGWH_POSTMASTER_DIED

type_synonym BackgroundWorkerHandle = nat

text \<open>
  What the scheduler sees of the server during one tick: the two collaborator calls
  \<open>GetBackgroundWorkerPid\<close> (liveness of a handle) and
  \<open>RegisterDynamicBackgroundWorker\<close> (\<open>None\<close> when the registration fails, otherwise
  the new handle), and the configuration flag.
\<close>

record sched_env = build_env +
  guc_parallel_enabled :: bool
  GetBackgroundWorkerPid :: "BackgroundWorkerHandle \<Rightarrow> BgwHandleStatus"
  RegisterDynamicBackgroundWorker :: "int \<Rightarrow> BackgroundWorkerHandle option"

record sched_state =
  pendingWorkers :: "int list"
  last_worker :: "BackgroundWorkerHandle option"

datatype sched_event =
    BufferSaver_registered
  | BlockReader_registered int
  | Registration_failed_logged

definition addPendingWorker :: "int \<Rightarrow> sched_state \<Rightarrow> sched_state" where
  "addPendingWorker filenum st = st\<lparr>pendingWorkers := pendingWorkers st @ [filenum]\<rparr>"

text \<open>
  \<open>RegisterWorker(id, &handle)\<close>: returns whether the registration succeeded, the
  handle variable after the call and the event. Id 0 registers the Buffer Saver
  statically and leaves the handle alone.
\<close>

definition RegisterWorker ::
  "('a sched_env_scheme) \<Rightarrow> int \<Rightarrow> BackgroundWorkerHandle option
    \<Rightarrow> bool \<times> BackgroundWorkerHandle option \<times> sched_event list" where
  "RegisterWorker env ident handle =
     (if ident = 0 then (True, handle, [BufferSaver_registered])
      else (case RegisterDynamicBackgroundWorker env ident of
              None \<Rightarrow> (False, handle, [])
            | Some h \<Rightarrow> (True, Some h, [BlockReader_registered ident])))"

text \<open>The tail of \<open>processOnePendingWorker\<close>, from the call of \<open>RegisterWorker\<close> on.\<close>

definition register_first_pending ::
  "('a sched_env_scheme) \<Rightarrow> sched_state \<Rightarrow> error + sched_state \<times> sched_event list" where
  "register_first_pending env st =
     (case pendingWorkers st of
        [] \<Rightarrow> Inl NullPointer
      | ident # rest \<Rightarrow>
          (case RegisterWorker env ident (last_worker st) of
             (ok, handle, evs) \<Rightarrow>
               if \<not> ok
               then Inr (st\<lparr>last_worker := handle\<rparr>, [Registration_failed_logged])
               else Inr (st\<lparr>last_worker := handle, pendingWorkers := rest\<rparr>, evs)))"

text \<open>
  One scheduling tick. The result is the scheduler's state after the tick and what it
  registered during the tick.
\<close>

definition processOnePendingWorker ::
  "('a sched_env_scheme) \<Rightarrow> sched_state \<Rightarrow> error + sched_state \<times> sched_event list" where
  "processOnePendingWorker env st =
     (if length (pendingWorkers st) = 0 then Inr (st, [])
      else
        (case last_worker st of
           None \<Rightarrow> register_first_pending env st
         | Some h \<Rightarrow>
             (case GetBackgroundWorkerPid env h of
                BGWH_STARTED \<Rightarrow>
                  if \<not> guc_parallel_enabled env then Inr (st, [])
                  else register_first_pending env (st\<lparr>last_worker := None\<rparr>)
              | BGWH_NOT_YET_STARTED \<Rightarrow>
                  if \<not> guc_parallel_enabled env then Inr (st, [])
                  else register_first_pending env (st\<lparr>last_worker := None\<rparr>)
              | BGWH_STOPPED \<Rightarrow>
                  register_first_pending env (st\<lparr>last_worker := None\<rparr>)
              | BGWH_POSTMASTER_DIED \<Rightarrow>
                  if assert_checking env then Inl TRAP_FailedAssertion
                  else register_first_pending env st)))"

text \<open>The block readers registered by a tick.\<close>

fun dispatched :: "error + sched_state \<times> sched_event list \<Rightarrow> int list" where
  "dispatched (Inl e) = []"
| "dispatched (Inr (st, evs)) =
     concat (map (\<lambda>ev. case ev of BlockReader_registered i \<Rightarrow> [i] | _ \<Rightarrow> []) evs)"

section \<open>Snapshot record codec\<close>

text \<open>
  A save-file is the database name followed by the records. Every record starts with
  a one-byte marker; its payload is a 4-byte value (\<open>sizeof(Oid)\<close>,
  \<open>sizeof(ForkNumber)\<close>, \<open>sizeof(BlockNumber)\<close> and \<open>sizeof(int)\<close> are all 4),
  written by \<open>fwrite\<close> as it lies in memory: least significant byte first on the
  little-endian machines the server runs on.
\<close>

definition marker_r :: byte where "marker_r = 0x72"
definition marker_f :: byte where "marker_f = 0x66"
definition marker_b :: byte where "marker_b = 0x62"
definition marker_N :: byte where "marker_N = 0x4E"

definition encode32 :: "32 word \<Rightarrow> byte list" where
  "encode32 w = [ucast w, ucast (drop_bit 8 w), ucast (drop_bit 16 w), ucast (drop_bit 24 w)]"

fun decode32 :: "byte list \<Rightarrow> 32 word" where
  "decode32 [b0, b1, b2, b3] =
     ucast b0 OR push_bit 8 (ucast b1) OR push_bit 16 (ucast b2) OR push_bit 24 (ucast b3)"
| "decode32 bs = 0"

record savefile =
  dbname :: string
  contents :: "byte list"

text \<open>
  The save-file directory: \<open>getSavefileName\<close> maps a file number to its path, so the
  directory is a map from file numbers to files.
\<close>

type_synonym savedir = "int \<Rightarrow> savefile option"

definition and_then :: "'e + 'a \<Rightarrow> ('a \<Rightarrow> 'e + 'b) \<Rightarrow> 'e + 'b" where
  "and_then r f = (case r of Inl e \<Rightarrow> Inl e | Inr x \<Rightarrow> f x)"

section \<open>Snapshot writer\<close>

record SavedBuffer =
  database :: Oid
  filenode :: Oid
  forknum :: ForkNumber
  blocknum :: BlockNumber

text \<open>
  The comparator, with the macro \<open>svdbfrcmp\<close> expanded for the four fields. Behind
  the four comparisons stands \<open>Assert(false)\<close>: comparing two identical pages aborts
  a build with assertion checking and returns 0 otherwise.
\<close>

definition SavedBufferCmp :: "('a build_env_scheme) \<Rightarrow> SavedBuffer \<Rightarrow> SavedBuffer \<Rightarrow> error + int" where
  "SavedBufferCmp env a b =
     (if database a < database b then Inr (- 1)
      else if database a > database b then Inr 1
      else if filenode a < filenode b then Inr (- 1)
      else if filenode a > filenode b then Inr 1
      else if sint (forknum a) < sint (forknum b) then Inr (- 1)
      else if sint (forknum a) > sint (forknum b) then Inr 1
      else if blocknum a < blocknum b then Inr (- 1)
      else if blocknum a > blocknum b then Inr 1
      else if assert_checking env then Inl TRAP_FailedAssertion
      else Inr 0)"

text \<open>
  \<open>pg_qsort\<close> is the server's library sort. It is modelled by its contract, a
  comparison sort that calls the comparator it is given, here as an insertion sort; a
  comparator that aborts aborts the sort.
\<close>

fun qsort_insert ::
  "('a \<Rightarrow> 'a \<Rightarrow> error + int) \<Rightarrow> 'a \<Rightarrow> 'a list \<Rightarrow> error + 'a list" where
  "qsort_insert cmp x [] = Inr [x]"
| "qsort_insert cmp x (y # ys) =
     (case cmp x y of
        Inl e \<Rightarrow> Inl e
      | Inr c \<Rightarrow>
          if c \<le> 0 then Inr (x # y # ys)
          else (case qsort_insert cmp x ys of Inl e \<Rightarrow> Inl e | Inr zs \<Rightarrow> Inr (y # zs)))"

fun pg_qsort :: "('a \<Rightarrow> 'a \<Rightarrow> error + int) \<Rightarrow> 'a list \<Rightarrow> error + 'a list" where
  "pg_qsort cmp [] = Inr []"
| "pg_qsort cmp (x # xs) =
     (case pg_qsort cmp xs of Inl e \<Rightarrow> Inl e | Inr ys \<Rightarrow> qsort_insert cmp x ys)"

text \<open>
  The cache scan: the identity of every buffer whose header has both \<open>BM_VALID\<close> and
  \<open>BM_TAG_VALID\<close> set, in buffer order. The partition and header locks have no effect
  on the result of a single pass and are left out.
\<close>

record BufferDesc =
  BM_VALID :: bool
  BM_TAG_VALID :: bool
  tag :: SavedBuffer

definition scan_buffers :: "BufferDesc list \<Rightarrow> SavedBuffer list" where
  "scan_buffers BufferDescriptors =
     map tag (filter (\<lambda>bufHdr. BM_VALID bufHdr \<and> BM_TAG_VALID bufHdr) BufferDescriptors)"

record save_env = build_env +
  get_database_name :: "Oid \<Rightarrow> string option"

text \<open>
  The writer's variables. \<open>file\<close> is the open \<open>FILE *\<close>, named by the number of the
  save-file it writes (\<open>None\<close> is \<open>NULL\<close>); \<open>savedir\<close> is the directory as written
  so far, which is what a failed save leaves behind.
\<close>

record save_state =
  savedir :: savedir
  "file" :: "int option"
  database_counter :: int
  prev_database :: Oid
  prev_filenode :: Oid
  prev_forknum :: ForkNumber
  prev_blocknum :: BlockNumber
  range_counter :: BlockNumber

type_synonym save_result = "error \<times> save_state + save_state"

text \<open>
  Modelled from the spec: the file helpers \<open>fileOpen\<close>, \<open>fileWrite\<close>,
  \<open>writeDBName\<close> and \<open>fileClose\<close> are declared in \<open>pg_hibernator.h\<close>, which is
  not among the sources. Opening for writing creates the file empty, writing appends,
  the header holds the database name. Failures of the file system itself are outside
  the model; a null handle or a null name is a crash.
\<close>

definition fileOpen_w :: "int \<Rightarrow> save_state \<Rightarrow> save_state" where
  "fileOpen_w n st =
     st\<lparr>savedir := (savedir st)(n \<mapsto> \<lparr>dbname = [], contents = []\<rparr>), file := Some n\<rparr>"

definition writeDBName :: "string option \<Rightarrow> save_state \<Rightarrow> save_result" where
  "writeDBName name st =
     (case name of
        None \<Rightarrow> Inl (NullPointer, st)
      | Some nm \<Rightarrow>
          (case file st of
             None \<Rightarrow> Inl (NullPointer, st)
           | Some n \<Rightarrow>
               (case savedir st n of
                  None \<Rightarrow> Inl (ERROR ''could not write to file'', st)
                | Some f \<Rightarrow> Inr (st\<lparr>savedir := (savedir st)(n \<mapsto> f\<lparr>dbname := nm\<rparr>)\<rparr>))))"

definition fileWrite :: "byte list \<Rightarrow> save_state \<Rightarrow> save_result" where
  "fileWrite bs st =
     (case file st of
        None \<Rightarrow> Inl (NullPointer, st)
      | Some n \<Rightarrow>
          (case savedir st n of
             None \<Rightarrow> Inl (ERROR ''could not write to file'', st)
           | Some f \<Rightarrow>
               Inr (st\<lparr>savedir := (savedir st)(n \<mapsto> f\<lparr>contents := contents f @ bs\<rparr>)\<rparr>)))"

definition fileClose :: "save_state \<Rightarrow> save_result" where
  "fileClose st =
     (case file st of
        None \<Rightarrow> Inl (NullPointer, st)
      | Some n \<Rightarrow> Inr (st\<lparr>file := None\<rparr>))"

text \<open>The block \<open>if (i == 0)\<close>: the save-file of the global objects.\<close>

definition open_global_savefile ::
  "('a save_env_scheme) \<Rightarrow> SavedBuffer \<Rightarrow> save_state \<Rightarrow> save_result" where
  "open_global_savefile env buf st =
     (if assert_checking env \<and> database buf \<noteq> InvalidOid then Inl (TRAP_FailedAssertion, st)
      else
        and_then (writeDBName (Some []) (fileOpen_w 1 (st\<lparr>database_counter := 1\<rparr>)))
          (\<lambda>st. Inr (st\<lparr>prev_database := database buf\<rparr>)))"

text \<open>The block \<open>if (buf->database != prev_database)\<close>: the next database's save-file.\<close>

definition open_database_savefile ::
  "('a save_env_scheme) \<Rightarrow> SavedBuffer \<Rightarrow> save_state \<Rightarrow> save_result" where
  "open_database_savefile env buf st =
     (let st = st\<lparr>database_counter := database_counter st + 1\<rparr>;
          name = get_database_name env (database buf)
      in if assert_checking env \<and> name = None then Inl (TRAP_FailedAssertion, st)
         else
           and_then (if file st \<noteq> None then fileClose st else Inr st)
             (\<lambda>st. and_then (writeDBName name (fileOpen_w (database_counter st) st))
               (\<lambda>st. Inr (st\<lparr>prev_database := database buf,
                              prev_filenode := InvalidOid,
                              prev_forknum := InvalidForkNumber,
                              prev_blocknum := InvalidBlockNumber,
                              range_counter := 0\<rparr>))))"

text \<open>The block \<open>if (buf->filenode != prev_filenode)\<close>.\<close>

definition write_filenode :: "SavedBuffer \<Rightarrow> save_state \<Rightarrow> save_result" where
  "write_filenode buf st =
     and_then (fileWrite [marker_r] st)
       (\<lambda>st. and_then (fileWrite (encode32 (filenode buf)) st)
         (\<lambda>st. Inr (st\<lparr>prev_filenode := filenode buf,
                        prev_forknum := InvalidForkNumber,
                        prev_blocknum := InvalidBlockNumber,
                        range_counter := 0\<rparr>)))"

text \<open>The block \<open>if (buf->forknum != prev_forknum)\<close>.\<close>

definition write_forknum :: "SavedBuffer \<Rightarrow> save_state \<Rightarrow> save_result" where
  "write_forknum buf st =
     and_then (fileWrite [marker_f] st)
       (\<lambda>st. and_then (fileWrite (encode32 (forknum buf)) st)
         (\<lambda>st. Inr (st\<lparr>prev_forknum := forknum buf,
                        prev_blocknum := InvalidBlockNumber,
                        range_counter := 0\<rparr>)))"

definition write_block :: "SavedBuffer \<Rightarrow> save_state \<Rightarrow> save_result" where
  "write_block buf st =
     and_then (fileWrite [marker_b] st)
       (\<lambda>st. and_then (fileWrite (encode32 (blocknum buf)) st)
         (\<lambda>st. Inr (st\<lparr>prev_blocknum := blocknum buf\<rparr>)))"

text \<open>
  The inner loop over \<open>j\<close>: it walks the buffers behind the current one and counts,
  in \<open>range_counter\<close>, how many continue the run of block numbers.
\<close>

fun count_range :: "save_state \<Rightarrow> SavedBuffer list \<Rightarrow> save_state" where
  "count_range st [] = st"
| "count_range st (tmp # rest) =
     (if database tmp = prev_database st
         \<and> filenode tmp = prev_filenode st
         \<and> forknum tmp = prev_forknum st
         \<and> blocknum tmp = prev_blocknum st + range_counter st + 1
      then count_range (st\<lparr>range_counter := range_counter st + 1\<rparr>) rest
      else st)"

definition write_range :: "save_state \<Rightarrow> save_result" where
  "write_range st =
     and_then (fileWrite [marker_N] st)
       (\<lambda>st. fileWrite (encode32 (range_counter st)) st)"

text \<open>
  The body of the outer loop, for the buffer at index \<open>i\<close>, up to the block record:
  the four blocks that open a save-file and write the relation and fork records.
\<close>

definition write_headers ::
  "('a save_env_scheme) \<Rightarrow> nat \<Rightarrow> save_state \<Rightarrow> SavedBuffer \<Rightarrow> save_result" where
  "write_headers env i st buf =
     and_then (if i = 0 then open_global_savefile env buf st else Inr st)
      (\<lambda>st. and_then (if database buf \<noteq> prev_database st
                       then open_database_savefile env buf st else Inr st)
      (\<lambda>st. and_then (if filenode buf \<noteq> prev_filenode st
                       then write_filenode buf st else Inr st)
      (\<lambda>st. if forknum buf \<noteq> prev_forknum st then write_forknum buf st else Inr st)))"

text \<open>
  One pass through the body of the outer loop, for the buffer at index \<open>i\<close> with the
  buffers behind it: the headers, the block record, the count of the run that follows
  and, when it is not empty, one range record.
\<close>

definition SaveStep ::
  "('a save_env_scheme) \<Rightarrow> nat \<Rightarrow> save_state \<Rightarrow> SavedBuffer \<Rightarrow> SavedBuffer list \<Rightarrow> save_result" where
  "SaveStep env i st buf rest =
     and_then (write_headers env i st buf)
      (\<lambda>st. and_then (write_block buf st)
      (\<lambda>st. let st = count_range (st\<lparr>range_counter := 0\<rparr>) rest
            in if range_counter st \<noteq> 0 then write_range st else Inr st))"

text \<open>
  The outer loop: after a step, \<open>i += range_counter\<close> and \<open>++i\<close> move past the
  buffers the range record covers.
\<close>

fun SaveLoop ::
  "('a save_env_scheme) \<Rightarrow> nat \<Rightarrow> save_state \<Rightarrow> SavedBuffer list \<Rightarrow> save_result" where
  "SaveLoop env i st [] = Inr st"
| "SaveLoop env i st (buf # rest) =
     (case SaveStep env i st buf rest of
        Inl e \<Rightarrow> Inl e
      | Inr st' \<Rightarrow>
          SaveLoop env (i + unat (range_counter st') + 1) st'
            (drop (unat (range_counter st')) rest))"

definition initial_save_state :: save_state where
  "initial_save_state =
     \<lparr>savedir = Map.empty, file = None, database_counter = 0,
      prev_database = InvalidOid, prev_filenode = InvalidOid,
      prev_forknum = InvalidForkNumber, prev_blocknum = InvalidBlockNumber,
      range_counter = 0\<rparr>"

text \<open>
  \<open>SaveBuffers\<close>: scan, sort, write, and close the last file. The directory is taken
  as empty before the save, so that the result holds the files of this save only.
\<close>

definition SaveBuffers :: "('a save_env_scheme) \<Rightarrow> BufferDesc list \<Rightarrow> save_result" where
  "SaveBuffers env BufferDescriptors =
     (case pg_qsort (SavedBufferCmp env) (scan_buffers BufferDescriptors) of
        Inl e \<Rightarrow> Inl (e, initial_save_state)
      | Inr saved_buffers \<Rightarrow>
          and_then (SaveLoop env 0 initial_save_state saved_buffers)
            (\<lambda>st. if assert_checking env \<and> file st = None then Inl (TRAP_FailedAssertion, st)
                  else fileClose st))"

section \<open>Snapshot reader\<close>

text \<open>
  A page fetch, \<open>ReadBufferExtended(rel, forknum, blocknum, RBM_NORMAL, NULL)\<close>
  followed by \<open>ReleaseBuffer\<close>, issued by a worker connected to \<open>in_database\<close>.
\<close>

record fetch =
  in_database :: string
  fetch_rel :: Oid
  fetch_forknum :: ForkNumber
  fetch_blocknum :: BlockNumber

text \<open>
  What the reader sees of the server: the relation a filenode belongs to in the
  connected database (\<open>GetRelOid\<close>, \<open>InvalidOid\<close> when there is none), whether a
  fork of a relation exists and how many blocks it has. \<open>sigterm_after\<close> says after
  how many decoded records the flag \<open>got_sigterm\<close> is seen set (\<open>None\<close>: never).
  The locals \<open>record_filenode\<close>, \<open>record_forknum\<close> and \<open>record_blocknum\<close> are
  declared without an initialiser; \<open>uninit_filenode\<close>, \<open>uninit_forknum\<close> and
  \<open>uninit_blocknum\<close> are what they hold when the loop starts.
\<close>

record read_env = build_env +
  guc_default_database :: string
  GetRelOid :: "string \<Rightarrow> Oid \<Rightarrow> Oid"
  smgrexists :: "string \<Rightarrow> Oid \<Rightarrow> ForkNumber \<Rightarrow> bool"
  RelationGetNumberOfBlocksInFork :: "string \<Rightarrow> Oid \<Rightarrow> ForkNumber \<Rightarrow> BlockNumber"
  sigterm_after :: "nat option"
  uninit_filenode :: Oid
  uninit_forknum :: ForkNumber
  uninit_blocknum :: BlockNumber

text \<open>
  The reader's variables. \<open>rel\<close> is the open relation, named by its oid (\<open>None\<close> is
  \<open>NULL\<close>); \<open>fetched\<close> is the trace of the page fetches issued so far.
\<close>

record read_state =
  record_filenode :: Oid
  record_forknum :: ForkNumber
  record_blocknum :: BlockNumber
  relOid :: Oid
  rel :: "Oid option"
  skip_relation :: bool
  skip_fork :: bool
  skip_block :: bool
  nblocks :: BlockNumber
  blocks_restored :: BlockNumber
  fetched :: "fetch list"

text \<open>
  Modelled from the spec: \<open>fileRead\<close> is declared in \<open>pg_hibernator.h\<close>, which is
  not among the sources. Reading a 4-byte payload (\<open>eof_ok = false\<close>) from a file that
  ends before it is the fatal error of a truncated file; otherwise the read yields the
  value and moves the file position by 4 bytes.
\<close>

definition fileRead4 :: "byte list \<Rightarrow> error + 32 word" where
  "fileRead4 bs =
     (if length bs < 4 then Inl (ERROR ''unexpected end of file'')
      else Inr (decode32 (take 4 bs)))"

definition ReadBufferExtended :: "string \<Rightarrow> BlockNumber \<Rightarrow> read_state \<Rightarrow> error + read_state" where
  "ReadBufferExtended conn block st =
     (case rel st of
        None \<Rightarrow> Inl NullPointer
      | Some r \<Rightarrow>
          Inr (st\<lparr>fetched := fetched st @
                 [\<lparr>in_database = conn, fetch_rel = r,
                   fetch_forknum = record_forknum st, fetch_blocknum = block\<rparr>]\<rparr>))"

text \<open>
  The four cases of the \<open>switch\<close>. Each reads its payload exactly once on every path
  that does not end in an error; \<open>payload\<close> is the outcome of that \<open>fileRead\<close>, and
  \<open>and_then payload\<close> stands where the case calls it, so that a check written before
  the read comes before it here too. A \<open>continue\<close> is the return of the state as it is.
\<close>

text \<open>\<open>case 'r'\<close>: a relation record.\<close>

definition case_r ::
  "('a read_env_scheme) \<Rightarrow> string \<Rightarrow> read_state \<Rightarrow> error + 32 word \<Rightarrow> error + read_state" where
  "case_r env conn st payload =
     (let st = st\<lparr>rel := None, record_forknum := InvalidForkNumber,
                 record_blocknum := InvalidBlockNumber, nblocks := 0\<rparr>
      in and_then payload
           (\<lambda>w. let st = st\<lparr>record_filenode := w, relOid := GetRelOid env conn w\<rparr>
                in if relOid st = InvalidOid then Inr (st\<lparr>skip_relation := True\<rparr>)
                   else Inr (st\<lparr>skip_relation := False, rel := Some (relOid st)\<rparr>)))"

text \<open>\<open>case 'f'\<close>: a fork record.\<close>

definition case_f ::
  "('a read_env_scheme) \<Rightarrow> string \<Rightarrow> read_state \<Rightarrow> error + 32 word \<Rightarrow> error + read_state" where
  "case_f env conn st payload =
     (let st = st\<lparr>record_blocknum := InvalidBlockNumber, nblocks := 0\<rparr>
      in and_then payload
           (\<lambda>w. let st = st\<lparr>record_forknum := w\<rparr>
                in if skip_relation st then Inr st
                   else
                     (case rel st of
                        None \<Rightarrow>
                          Inl (ERROR ''found a fork record without a preceeding relation record'')
                      | Some r \<Rightarrow>
                          if \<not> smgrexists env conn r w then Inr (st\<lparr>skip_fork := True\<rparr>)
                          else Inr (st\<lparr>skip_fork := False,
                                       nblocks := RelationGetNumberOfBlocksInFork env conn r w\<rparr>))))"

text \<open>\<open>case 'b'\<close>: a block record.\<close>

definition case_b ::
  "string \<Rightarrow> read_state \<Rightarrow> error + 32 word \<Rightarrow> error + read_state" where
  "case_b conn st payload =
     (if record_forknum st = InvalidForkNumber
      then Inl (ERROR ''found a block record without a preceeding fork record'')
      else
        and_then payload
          (\<lambda>w. let st = st\<lparr>record_blocknum := w\<rparr>
               in if skip_relation st \<or> skip_fork st then Inr st
                  else if record_blocknum st \<ge> nblocks st then Inr (st\<lparr>skip_block := True\<rparr>)
                  else
                    and_then (ReadBufferExtended conn (record_blocknum st) (st\<lparr>skip_block := False\<rparr>))
                      (\<lambda>st. Inr (st\<lparr>blocks_restored := blocks_restored st + 1\<rparr>))))"

text \<open>
  The loop of \<open>case 'N'\<close>,
  \<open>for (block = record_blocknum + 1; block <= record_blocknum + record_range; ++block)\<close>;
  \<open>bound\<close> is the bound \<open>record_blocknum + record_range\<close> and \<open>nb\<close> is \<open>nblocks\<close>,
  neither of which the loop changes.
\<close>

function read_range ::
  "string \<Rightarrow> BlockNumber \<Rightarrow> BlockNumber \<Rightarrow> BlockNumber \<Rightarrow> read_state \<Rightarrow> error + read_state" where
  "read_range conn block bound nb st =
     (if block \<le> bound then
        if block \<ge> nb then Inr st
        else
          (case ReadBufferExtended conn block st of
             Inl e \<Rightarrow> Inl e
           | Inr st' \<Rightarrow>
               read_range conn (block + 1) bound nb
                 (st'\<lparr>blocks_restored := blocks_restored st' + 1\<rparr>))
      else Inr st)"
  by pat_completeness auto
termination
proof (relation "measure (\<lambda>(conn, block, bound, nb, st). unat nb - unat block)")
  show "wf (measure (\<lambda>(conn, block, bound, nb, st). unat nb - unat block))"
    by simp
next
  fix conn :: string and block bound nb :: BlockNumber and st x2 :: read_state
  assume "\<not> nb \<le> block"
  then have lt: "unat block < unat nb"
    by (simp add: word_less_nat_alt not_le)
  have "unat nb \<le> 2 ^ 32 - 1"
    using unsigned_less [of nb, where 'a = nat] by simp
  with lt have "unat block + 1 < 2 ^ 32"
    by simp
  then have "unat (block + 1) = unat block + 1"
    by (simp add: unat_word_ariths)
  with lt show "((conn, block + 1, bound, nb, x2\<lparr>blocks_restored := blocks_restored x2 + 1\<rparr>),
                 (conn, block, bound, nb, st))
                \<in> measure (\<lambda>(conn, block, bound, nb, st). unat nb - unat block)"
    by simp
qed

declare read_range.simps [simp del]

text \<open>\<open>case 'N'\<close>: a range record.\<close>

definition case_N ::
  "('a read_env_scheme) \<Rightarrow> string \<Rightarrow> read_state \<Rightarrow> error + 32 word \<Rightarrow> error + read_state" where
  "case_N env conn st payload =
     (if assert_checking env \<and> record_blocknum st = InvalidBlockNumber
      then Inl TRAP_FailedAssertion
      else if record_blocknum st = InvalidBlockNumber
      then Inl (ERROR ''found a block range record without a preceeding block record'')
      else
        and_then payload
          (\<lambda>record_range.
             if skip_relation st \<or> skip_fork st \<or> skip_block st then Inr st
             else read_range conn (record_blocknum st + 1)
                    (record_blocknum st + record_range) (nblocks st) st))"

text \<open>The \<open>switch (record_type)\<close>.\<close>

definition read_record ::
  "('a read_env_scheme) \<Rightarrow> string \<Rightarrow> byte \<Rightarrow> read_state \<Rightarrow> error + 32 word
    \<Rightarrow> error + read_state" where
  "read_record env conn record_type st payload =
     (if record_type = marker_r then case_r env conn st payload
      else if record_type = marker_f then case_f env conn st payload
      else if record_type = marker_b then case_b conn st payload
      else if record_type = marker_N then case_N env conn st payload
      else Inl (ERROR ''found unexpected save-file marker''))"

text \<open>
  The \<open>while\<close> loop over the records. It ends at the end of the file, or when
  \<open>got_sigterm\<close> is seen after a marker has been read; \<open>sig\<close> counts the records
  still to decode before that. A record that did not end in an error has read its
  4-byte payload, and the next marker is the byte behind it.
\<close>

fun ReadLoop ::
  "('a read_env_scheme) \<Rightarrow> string \<Rightarrow> nat option \<Rightarrow> read_state \<Rightarrow> byte list \<Rightarrow> error + read_state" where
  "ReadLoop env conn sig st [] = Inr st"
| "ReadLoop env conn sig st (record_type # bs) =
     (if sig = Some 0 then Inr st
      else
        (case read_record env conn record_type st (fileRead4 bs) of
           Inl e \<Rightarrow> Inl e
         | Inr st' \<Rightarrow> ReadLoop env conn (map_option (\<lambda>n. n - 1) sig) st' (drop 4 bs)))"

definition initial_read_state :: "('a read_env_scheme) \<Rightarrow> read_state" where
  "initial_read_state env =
     \<lparr>record_filenode = uninit_filenode env, record_forknum = uninit_forknum env,
      record_blocknum = uninit_blocknum env, relOid = InvalidOid, rel = None,
      skip_relation = False, skip_fork = False, skip_block = False,
      nblocks = 0, blocks_restored = 0, fetched = []\<rparr>"

text \<open>
  \<open>ReadBlocks(filenum)\<close> on a directory: the outcome of the worker, and the directory
  it leaves. The file goes (\<open>remove\<close>) on the path that returns; an error leaves the
  function before that.
\<close>

definition ReadBlocks ::
  "('a read_env_scheme) \<Rightarrow> savedir \<Rightarrow> int \<Rightarrow> (error + read_state) \<times> savedir" where
  "ReadBlocks env dir filenum =
     (case dir filenum of
        None \<Rightarrow> (Inl (ERROR ''could not open file''), dir)
      | Some f \<Rightarrow>
          if assert_checking env \<and> \<not> filenum \<ge> 1 then (Inl TRAP_FailedAssertion, dir)
          else if assert_checking env
                  \<and> \<not> (if filenum = 1 then length (dbname f) = 0 else length (dbname f) > 0)
          then (Inl TRAP_FailedAssertion, dir)
          else
            (let conn = (if filenum = 1 then guc_default_database env else dbname f)
             in case ReadLoop env conn (sigterm_after env) (initial_read_state env) (contents f) of
                  Inl e \<Rightarrow> (Inl e, dir)
                | Inr st \<Rightarrow> (Inr st, dir(filenum := None))))"

section \<open>Notions used to state the properties\<close>

text \<open>The fetches of the blocks \<open>blocks\<close> of one fork of one relation, in that order.\<close>

definition block_fetches :: "string \<Rightarrow> Oid \<Rightarrow> ForkNumber \<Rightarrow> nat list \<Rightarrow> fetch list" where
  "block_fetches conn r fork blocks =
     map (\<lambda>n. \<lparr>in_database = conn, fetch_rel = r, fetch_forknum = fork,
               fetch_blocknum = of_nat n\<rparr>) blocks"

text \<open>The page fetches a worker issued, when it returned.\<close>

definition fetches_of :: "(error + read_state) \<times> savedir \<Rightarrow> error + fetch list" where
  "fetches_of outcome = (case fst outcome of Inl e \<Rightarrow> Inl e | Inr st \<Rightarrow> Inr (fetched st))"

section \<open>Example inputs\<close>

text \<open>
  A scheduler environment with parallel restore disabled, in which every worker is in
  the given state and every registration succeeds.
\<close>

definition serial_env :: "BgwHandleStatus \<Rightarrow> sched_env" where
  "serial_env status =
     \<lparr>assert_checking = False, guc_parallel_enabled = False,
      GetBackgroundWorkerPid = (\<lambda>h. status),
      RegisterDynamicBackgroundWorker = (\<lambda>ident. Some (nat ident))\<rparr>"

text \<open>
  A server with one database \<open>db1\<close>, in which filenode 42 is relation 16384 and every
  fork has 13 blocks; the uninitialised locals of the reader hold 0.
\<close>

definition db1_env :: "nat option \<Rightarrow> read_env" where
  "db1_env sig =
     \<lparr>assert_checking = True, guc_default_database = ''postgres'',
      GetRelOid = (\<lambda>db fn. if db = ''db1'' \<and> fn = 42 then 16384 else InvalidOid),
      smgrexists = (\<lambda>db r fork. True),
      RelationGetNumberOfBlocksInFork = (\<lambda>db r fork. 13),
      sigterm_after = sig,
      uninit_filenode = 0, uninit_forknum = 0, uninit_blocknum = 0\<rparr>"

text \<open>The save-file with the records \<open>[r:42, f:0, b:10, N:2]\<close> for \<open>db1\<close>.\<close>

definition db1_savefile :: savefile where
  "db1_savefile =
     \<lparr>dbname = ''db1'',
      contents = marker_r # encode32 42 @ marker_f # encode32 0
                 @ marker_b # encode32 10 @ marker_N # encode32 2\<rparr>"

text \<open>
  The reader's state after the records \<open>[r:42, f:0]\<close> of that file: relation and fork
  are open, the fork has 13 blocks.
\<close>

definition fork_open_state :: read_state where
  "fork_open_state =
     \<lparr>record_filenode = 42, record_forknum = 0, record_blocknum = InvalidBlockNumber,
      relOid = 16384, rel = Some 16384, skip_relation = False, skip_fork = False,
      skip_block = False, nblocks = 13, blocks_restored = 0, fetched = []\<rparr>"

text \<open>The save-files whose only record is a block record, and a range record.\<close>

definition stray_block_savefile :: savefile where
  "stray_block_savefile = \<lparr>dbname = ''db1'', contents = marker_b # encode32 10\<rparr>"

definition stray_range_savefile :: savefile where
  "stray_range_savefile = \<lparr>dbname = ''db1'', contents = marker_N # encode32 2\<rparr>"

text \<open>
  The sort key \<open>(namespace_id, file_id, fork_id, block_number)\<close> of a page, ordered
  lexicographically; the fork number counts as the signed integer it is.
\<close>

definition SavedBuffer_key :: "SavedBuffer \<Rightarrow> nat \<times> nat \<times> int \<times> nat" where
  "SavedBuffer_key a = (unat (database a), unat (filenode a), sint (forknum a), unat (blocknum a))"

text \<open>
  Two valid buffers: block 7 of fork 0 of filenode 42 in database 5, and block 3 of
  fork 0 of the global filenode 1262.
\<close>

definition page_db5 :: BufferDesc where
  "page_db5 =
     \<lparr>BM_VALID = True, BM_TAG_VALID = True,
      tag = \<lparr>database = 5, filenode = 42, forknum = 0, blocknum = 7\<rparr>\<rparr>"

definition page_global :: BufferDesc where
  "page_global =
     \<lparr>BM_VALID = True, BM_TAG_VALID = True,
      tag = \<lparr>database = 0, filenode = 1262, forknum = 0, blocknum = 3\<rparr>\<rparr>"

text \<open>A server without assertion checking in which database 5 is called \<open>db1\<close>.\<close>

definition db1_save_env :: save_env where
  "db1_save_env =
     \<lparr>assert_checking = False,
      get_database_name = (\<lambda>d. if d = 5 then Some ''db1'' else None)\<rparr>"

text \<open>
  \<open>continues a b\<close>: page \<open>b\<close> is the block behind page \<open>a\<close> in the same fork of the same
  relation of the same database, the condition of the writer's inner loop.
  \<open>run_length a rest\<close> is the number of pages at the front of \<open>rest\<close> that continue
  the run of consecutive blocks that \<open>a\<close> starts.
\<close>

definition continues :: "SavedBuffer \<Rightarrow> SavedBuffer \<Rightarrow> bool" where
  "continues a b \<longleftrightarrow>
     database b = database a \<and> filenode b = filenode a \<and> forknum b = forknum a
     \<and> blocknum b = blocknum a + 1"

fun run_length :: "SavedBuffer \<Rightarrow> SavedBuffer list \<Rightarrow> nat" where
  "run_length a [] = 0"
| "run_length a (b # rest) = (if continues a b then Suc (run_length b rest) else 0)"

text \<open>
  \<open>file_open st\<close>: the writer holds an open save-file. \<open>written bs st\<close> is the state
  after the bytes \<open>bs\<close> have been appended to it.
\<close>

definition file_open :: "save_state \<Rightarrow> bool" where
  "file_open st \<longleftrightarrow> (\<exists>n f. file st = Some n \<and> savedir st n = Some f)"

definition written :: "byte list \<Rightarrow> save_state \<Rightarrow> save_state" where
  "written bs st =
     (case file st of
        None \<Rightarrow> st
      | Some n \<Rightarrow>
          (case savedir st n of
             None \<Rightarrow> st
           | Some f \<Rightarrow> st\<lparr>savedir := (savedir st)(n \<mapsto> f\<lparr>contents := contents f @ bs\<rparr>)\<rparr>))"

text \<open>
  The bytes one pass through the loop body appends to the open save-file, for a buffer
  \<open>buf\<close> that starts a run of \<open>n\<close> further blocks, when the trackers
  \<open>prev_filenode\<close> and \<open>prev_forknum\<close> hold \<open>pf\<close> and \<open>pk\<close>: a relation record when
  the filenode changes, a fork record when the fork changes (against the invalid fork
  after a relation record), the block record, and one range record when \<open>n\<close> is not 0.
\<close>

definition step_bytes :: "Oid \<Rightarrow> ForkNumber \<Rightarrow> SavedBuffer \<Rightarrow> nat \<Rightarrow> byte list" where
  "step_bytes pf pk buf n =
     (if filenode buf \<noteq> pf then marker_r # encode32 (filenode buf) else [])
     @ (if forknum buf \<noteq> (if filenode buf \<noteq> pf then InvalidForkNumber else pk)
        then marker_f # encode32 (forknum buf) else [])
     @ marker_b # encode32 (blocknum buf)
     @ (if (of_nat n :: 32 word) \<noteq> 0 then marker_N # encode32 (of_nat n) else [])"

text \<open>
  The writer's state after the block that opens the save-file of the next database,
  called \<open>nm\<close>, and after the block that opens the save-file of the global objects.
\<close>

definition database_opened :: "string \<Rightarrow> SavedBuffer \<Rightarrow> save_state \<Rightarrow> save_state" where
  "database_opened nm buf st =
     st\<lparr>savedir := (savedir st)(database_counter st + 1 \<mapsto> \<lparr>dbname = nm, contents = []\<rparr>),
        file := Some (database_counter st + 1),
        database_counter := database_counter st + 1,
        prev_database := database buf, prev_filenode := InvalidOid,
        prev_forknum := InvalidForkNumber, prev_blocknum := InvalidBlockNumber,
        range_counter := 0\<rparr>"

definition global_opened :: "SavedBuffer \<Rightarrow> save_state \<Rightarrow> save_state" where
  "global_opened buf st =
     st\<lparr>savedir := (savedir st)(1 \<mapsto> \<lparr>dbname = [], contents = []\<rparr>),
        file := Some 1, database_counter := 1, prev_database := database buf\<rparr>"

text \<open>The file number \<open>n\<close> that a save leaves in the directory, whether it failed or not.\<close>

definition saved_file :: "save_result \<Rightarrow> int \<Rightarrow> savefile option" where
  "saved_file r n = (case r of Inl (e, st) \<Rightarrow> savedir st n | Inr st \<Rightarrow> savedir st n)"

text \<open>A page of the global relation with filenode 1262.\<close>

definition global_page :: "ForkNumber \<Rightarrow> BlockNumber \<Rightarrow> SavedBuffer" where
  "global_page fork block = \<lparr>database = 0, filenode = 1262, forknum = fork, blocknum = block\<rparr>"

text \<open>
  The bytes the writer appends to one save-file for the pages \<open>g\<close> of one database, given
  in sorted order, when the trackers hold the filenode \<open>pf\<close> and the fork \<open>pk\<close>: the bytes
  of one pass through the loop body for the first page of every run.
\<close>

fun encode_group :: "Oid \<Rightarrow> ForkNumber \<Rightarrow> SavedBuffer list \<Rightarrow> byte list" where
  "encode_group pf pk [] = []"
| "encode_group pf pk (buf # rest) =
     step_bytes pf pk buf (run_length buf rest)
     @ encode_group (filenode buf) (forknum buf) (drop (run_length buf rest) rest)"






text \<open>The pages of a run: page \<open>buf\<close> and the \<open>n\<close> blocks behind it.\<close>

definition run_pages :: "SavedBuffer \<Rightarrow> nat \<Rightarrow> SavedBuffer set" where
  "run_pages buf n =
     (\<lambda>m. buf\<lparr>blocknum := of_nat m\<rparr>) ` {unat (blocknum buf) .. unat (blocknum buf) + n}"





section \<open>Properties of the restore scheduler\<close>

text \<open>
  Claim C5. With parallel restore disabled, a tick that finds the remembered worker
  started or not yet started changes nothing and registers nothing; a tick that
  registers a block reader while a worker is remembered has found that worker stopped
  (\<open>GetBackgroundWorkerPid\<close> reporting one of its three states), and registers the
  first pending id. With the queue \<open>[5, 6]\<close>: 5 is registered; a tick while 5 is
  started registers nothing; a tick after 5 has stopped registers 6.
\<close>

theorem scheduler_serial_dispatch:
  "(\<not> guc_parallel_enabled env \<and> last_worker st = Some h
      \<and> (GetBackgroundWorkerPid env h = BGWH_STARTED
          \<or> GetBackgroundWorkerPid env h = BGWH_NOT_YET_STARTED)
      \<longrightarrow> processOnePendingWorker env st = Inr (st, []))
   \<and> (\<not> guc_parallel_enabled env \<and> last_worker st = Some h
      \<and> GetBackgroundWorkerPid env h \<noteq> BGWH_POSTMASTER_DIED
      \<and> dispatched (processOnePendingWorker env st) \<noteq> []
      \<longrightarrow> GetBackgroundWorkerPid env h = BGWH_STOPPED
          \<and> (\<exists>ident rest. pendingWorkers st = ident # rest
                \<and> dispatched (processOnePendingWorker env st) = [ident]))
   \<and> (\<not> guc_parallel_enabled env1 \<and> RegisterDynamicBackgroundWorker env1 5 = Some h5
      \<and> \<not> guc_parallel_enabled env2 \<and> GetBackgroundWorkerPid env2 h5 = BGWH_STARTED
      \<and> \<not> guc_parallel_enabled env3 \<and> GetBackgroundWorkerPid env3 h5 = BGWH_STOPPED
      \<and> RegisterDynamicBackgroundWorker env3 6 = Some h6
      \<longrightarrow> processOnePendingWorker env1 \<lparr>pendingWorkers = [5, 6], last_worker = None\<rparr>
            = Inr (\<lparr>pendingWorkers = [6], last_worker = Some h5\<rparr>, [BlockReader_registered 5])
          \<and> processOnePendingWorker env2 \<lparr>pendingWorkers = [6], last_worker = Some h5\<rparr>
            = Inr (\<lparr>pendingWorkers = [6], last_worker = Some h5\<rparr>, [])
          \<and> processOnePendingWorker env3 \<lparr>pendingWorkers = [6], last_worker = Some h5\<rparr>
            = Inr (\<lparr>pendingWorkers = [], last_worker = Some h6\<rparr>, [BlockReader_registered 6]))"
proof (intro conjI impI)
  assume "\<not> guc_parallel_enabled env \<and> last_worker st = Some h
      \<and> (GetBackgroundWorkerPid env h = BGWH_STARTED
          \<or> GetBackgroundWorkerPid env h = BGWH_NOT_YET_STARTED)"
  then show "processOnePendingWorker env st = Inr (st, [])"
    by (auto simp: processOnePendingWorker_def)
next
  assume a: "\<not> guc_parallel_enabled env \<and> last_worker st = Some h
      \<and> GetBackgroundWorkerPid env h \<noteq> BGWH_POSTMASTER_DIED
      \<and> dispatched (processOnePendingWorker env st) \<noteq> []"
  then show "GetBackgroundWorkerPid env h = BGWH_STOPPED"
    by (cases "GetBackgroundWorkerPid env h")
      (auto simp: processOnePendingWorker_def split: if_splits)
  from a show "\<exists>ident rest. pendingWorkers st = ident # rest
                \<and> dispatched (processOnePendingWorker env st) = [ident]"
    by (cases "GetBackgroundWorkerPid env h"; cases "pendingWorkers st")
      (auto simp: processOnePendingWorker_def register_first_pending_def RegisterWorker_def
        split: option.splits if_splits)
next
  assume a: "\<not> guc_parallel_enabled env1 \<and> RegisterDynamicBackgroundWorker env1 5 = Some h5
      \<and> \<not> guc_parallel_enabled env2 \<and> GetBackgroundWorkerPid env2 h5 = BGWH_STARTED
      \<and> \<not> guc_parallel_enabled env3 \<and> GetBackgroundWorkerPid env3 h5 = BGWH_STOPPED
      \<and> RegisterDynamicBackgroundWorker env3 6 = Some h6"
  then show "processOnePendingWorker env1 \<lparr>pendingWorkers = [5, 6], last_worker = None\<rparr>
            = Inr (\<lparr>pendingWorkers = [6], last_worker = Some h5\<rparr>, [BlockReader_registered 5])"
    by (simp add: processOnePendingWorker_def register_first_pending_def RegisterWorker_def)
  from a show "processOnePendingWorker env2 \<lparr>pendingWorkers = [6], last_worker = Some h5\<rparr>
            = Inr (\<lparr>pendingWorkers = [6], last_worker = Some h5\<rparr>, [])"
    by (simp add: processOnePendingWorker_def)
  from a show "processOnePendingWorker env3 \<lparr>pendingWorkers = [6], last_worker = Some h5\<rparr>
            = Inr (\<lparr>pendingWorkers = [], last_worker = Some h6\<rparr>, [BlockReader_registered 6])"
    by (simp add: processOnePendingWorker_def register_first_pending_def RegisterWorker_def)
qed

theorem scheduler_serial_dispatch_witness:
  "processOnePendingWorker (serial_env BGWH_STARTED) \<lparr>pendingWorkers = [5, 6], last_worker = None\<rparr>
     = Inr (\<lparr>pendingWorkers = [6], last_worker = Some 5\<rparr>, [BlockReader_registered 5])
   \<and> processOnePendingWorker (serial_env BGWH_STARTED) \<lparr>pendingWorkers = [6], last_worker = Some 5\<rparr>
     = Inr (\<lparr>pendingWorkers = [6], last_worker = Some 5\<rparr>, [])
   \<and> processOnePendingWorker (serial_env BGWH_STOPPED) \<lparr>pendingWorkers = [6], last_worker = Some 5\<rparr>
     = Inr (\<lparr>pendingWorkers = [], last_worker = Some 6\<rparr>, [BlockReader_registered 6])
   \<and> GetBackgroundWorkerPid (serial_env BGWH_STOPPED) 5 = BGWH_STOPPED
   \<and> dispatched (processOnePendingWorker (serial_env BGWH_STOPPED)
        \<lparr>pendingWorkers = [6], last_worker = Some 5\<rparr>) = [6]"
  using scheduler_serial_dispatch [of "serial_env BGWH_STOPPED"
      "\<lparr>pendingWorkers = [6], last_worker = Some 5\<rparr>" 5
      "serial_env BGWH_STARTED" 5 "serial_env BGWH_STARTED" "serial_env BGWH_STOPPED" 6]
  by (simp add: serial_env_def processOnePendingWorker_def register_first_pending_def
      RegisterWorker_def)

text \<open>
  Claim C6, as stated, fails: a tick that finds the remembered worker stopped clears
  the slot and registers the next pending id in the same tick.
\<close>

theorem draining_same_tick_counterexample:
  "last_worker \<lparr>pendingWorkers = [6], last_worker = Some 5\<rparr> = Some 5
   \<and> GetBackgroundWorkerPid (serial_env BGWH_STOPPED) 5 = BGWH_STOPPED
   \<and> processOnePendingWorker (serial_env BGWH_STOPPED) \<lparr>pendingWorkers = [6], last_worker = Some 5\<rparr>
       = Inr (\<lparr>pendingWorkers = [], last_worker = Some 6\<rparr>, [BlockReader_registered 6])"
  by (simp add: serial_env_def processOnePendingWorker_def register_first_pending_def
      RegisterWorker_def)

text \<open>
  Claim C6, amended. When the queue is not empty and the remembered worker is found
  stopped, the tick clears the slot and at once tries to register the first pending
  id: on success the slot holds the new handle and the id leaves the queue; on
  failure the slot stays empty, the id stays at the front and the failure is logged.
\<close>

theorem stopped_worker_cleared_and_next_dispatched:
  assumes "pendingWorkers st = ident # rest"
    and "last_worker st = Some h"
    and "GetBackgroundWorkerPid env h = BGWH_STOPPED"
    and "ident \<noteq> 0"
  shows "processOnePendingWorker env st =
           (case RegisterDynamicBackgroundWorker env ident of
              Some h' \<Rightarrow> Inr (st\<lparr>last_worker := Some h', pendingWorkers := rest\<rparr>,
                              [BlockReader_registered ident])
            | None \<Rightarrow> Inr (st\<lparr>last_worker := None\<rparr>, [Registration_failed_logged]))"
  using assms
  by (simp add: processOnePendingWorker_def register_first_pending_def RegisterWorker_def
      split: option.splits)

theorem stopped_worker_cleared_and_next_dispatched_witness:
  "processOnePendingWorker (serial_env BGWH_STOPPED) \<lparr>pendingWorkers = [6, 7], last_worker = Some 5\<rparr>
     = Inr (\<lparr>pendingWorkers = [7], last_worker = Some 6\<rparr>, [BlockReader_registered 6])"
  using stopped_worker_cleared_and_next_dispatched
    [of "\<lparr>pendingWorkers = [6, 7], last_worker = Some 5\<rparr>" 6 "[7]" 5 "serial_env BGWH_STOPPED"]
  by (simp add: serial_env_def)

section \<open>The record codec\<close>

lemma decode32_encode32: "decode32 (encode32 w) = w"
proof -
  have "ucast (ucast w :: byte) OR push_bit 8 (ucast (ucast (drop_bit 8 w) :: byte))
        OR push_bit 16 (ucast (ucast (drop_bit 16 w) :: byte))
        OR push_bit 24 (ucast (ucast (drop_bit 24 w) :: byte)) = w"
  proof (rule bit_word_eqI)
    fix n :: nat
    assume "n < LENGTH(32)"
    then have n: "n < 32" by simp
    consider "n < 8" | "8 \<le> n" "n < 16" | "16 \<le> n" "n < 24" | "24 \<le> n"
      by linarith
    then show "bit (ucast (ucast w :: byte) OR push_bit 8 (ucast (ucast (drop_bit 8 w) :: byte))
        OR push_bit 16 (ucast (ucast (drop_bit 16 w) :: byte))
        OR push_bit 24 (ucast (ucast (drop_bit 24 w) :: byte)) :: 32 word) n = bit w n"
      using n by cases (auto simp: bit_simps)
  qed
  then show ?thesis by (simp add: encode32_def)
qed

lemma length_encode32: "length (encode32 w) = 4"
  by (simp add: encode32_def)

lemma fileRead4_encode32: "fileRead4 (encode32 w @ rest) = Inr w"
  by (simp add: fileRead4_def length_encode32 decode32_encode32)

lemma drop_encode32: "drop 4 (encode32 w @ rest) = rest"
  by (simp add: length_encode32)

lemma markers_distinct:
  "marker_r \<noteq> marker_f" "marker_r \<noteq> marker_b" "marker_r \<noteq> marker_N"
  "marker_f \<noteq> marker_b" "marker_f \<noteq> marker_N" "marker_b \<noteq> marker_N"
  "marker_f \<noteq> marker_r" "marker_b \<noteq> marker_r" "marker_N \<noteq> marker_r"
  "marker_b \<noteq> marker_f" "marker_N \<noteq> marker_f" "marker_N \<noteq> marker_b"
  by (simp_all add: marker_r_def marker_f_def marker_b_def marker_N_def)

lemma read_record_truncated: "\<exists>e'. read_record env conn t st (Inl e) = Inl e'"
  by (simp add: read_record_def case_r_def case_f_def case_b_def case_N_def and_then_def)

lemma read_record_Inr_length:
  assumes "read_record env conn t st (fileRead4 bs) = Inr st'"
  shows "4 \<le> length bs"
proof (rule ccontr)
  assume "\<not> 4 \<le> length bs"
  then have "fileRead4 bs = Inl (ERROR ''unexpected end of file'')"
    by (simp add: fileRead4_def)
  with assms read_record_truncated [of env conn t st "ERROR ''unexpected end of file''"]
  show False by auto
qed

lemma fileRead4_append: "4 \<le> length bs \<Longrightarrow> fileRead4 (bs @ post) = fileRead4 bs"
  by (simp add: fileRead4_def)

lemma ReadLoop_append:
  "ReadLoop env conn None st bs1 = Inr st1 \<Longrightarrow>
   ReadLoop env conn None st (bs1 @ bs2) = ReadLoop env conn None st1 bs2"
proof (induction env conn "None :: nat option" st bs1 rule: ReadLoop.induct)
  case (1 env conn st)
  then show ?case by simp
next
  case (2 env conn st t bs)
  from "2.prems" obtain st' where rr: "read_record env conn t st (fileRead4 bs) = Inr st'"
    by (auto split: sum.splits)
  have len: "4 \<le> length bs"
    using rr by (rule read_record_Inr_length)
  have "ReadLoop env conn None st' (drop 4 bs @ bs2) = ReadLoop env conn None st1 bs2"
    using "2.prems" rr by (intro "2.hyps" [OF _ rr]) auto
  then show ?case
    using rr len by (simp add: fileRead4_append)
qed

lemma ReadLoop_stop_prefix:
  "ReadLoop env conn sig st bs = Inr st1 \<Longrightarrow>
   \<exists>pre post. bs = pre @ post \<and> ReadLoop env conn None st pre = Inr st1"
proof (induction env conn sig st bs rule: ReadLoop.induct)
  case (1 env conn sig st)
  then show ?case by simp
next
  case (2 env conn sig st t bs)
  show ?case
  proof (cases "sig = Some 0")
    case True
    with "2.prems" have "ReadLoop env conn None st [] = Inr st1"
      by simp
    then show ?thesis by blast
  next
    case False
    with "2.prems" obtain st' where rr: "read_record env conn t st (fileRead4 bs) = Inr st'"
      by (auto split: sum.splits)
    have len: "4 \<le> length bs"
      using rr by (rule read_record_Inr_length)
    from "2.prems" False rr
    have "ReadLoop env conn (map_option (\<lambda>n. n - 1) sig) st' (drop 4 bs) = Inr st1"
      by simp
    with "2.IH" [OF False rr] obtain pre post
      where pp: "drop 4 bs = pre @ post" "ReadLoop env conn None st' pre = Inr st1"
      by auto
    have "t # bs = (t # take 4 bs @ pre) @ post"
      using pp(1) by (metis append.assoc append_Cons append_take_drop_id)
    moreover have "fileRead4 (take 4 bs @ pre) = fileRead4 bs"
      using len by (simp add: fileRead4_def)
    then have "ReadLoop env conn None st (t # take 4 bs @ pre) = Inr st1"
      using pp(2) rr len by simp
    ultimately show ?thesis by blast
  qed
qed

section \<open>Properties of the snapshot reader\<close>

lemma unat_succ_below:
  fixes block nb :: "32 word"
  assumes "block < nb"
  shows "unat (block + 1) = Suc (unat block)"
proof -
  from assms have "unat block < unat nb"
    by (simp add: word_less_nat_alt)
  moreover have "unat nb < 2 ^ 32"
    using unsigned_less [of nb, where 'a = nat] by simp
  ultimately have "unat block + 1 < 2 ^ 32"
    by simp
  then show ?thesis
    by (simp add: unat_word_ariths)
qed

lemma read_range_eq:
  "rel st = Some r \<Longrightarrow>
   read_range conn block bound nb st =
     Inr (st\<lparr>blocks_restored := blocks_restored st
               + of_nat (length [unat block ..< min (Suc (unat bound)) (unat nb)]),
             fetched := fetched st @ block_fetches conn r (record_forknum st)
               [unat block ..< min (Suc (unat bound)) (unat nb)]\<rparr>)"
proof (induction conn block bound nb st rule: read_range.induct)
  case (1 conn block bound nb st)
  show ?case
  proof (cases "block \<le> bound \<and> block < nb")
    case False
    then have "[unat block ..< min (Suc (unat bound)) (unat nb)] = []"
      by (auto simp: word_le_nat_alt word_less_nat_alt not_le not_less)
    with False show ?thesis
      by (subst read_range.simps) (auto simp: block_fetches_def not_less)
  next
    case True
    then have lt: "unat block < min (Suc (unat bound)) (unat nb)"
      by (auto simp: word_le_nat_alt word_less_nat_alt)
    from True have suc: "unat (block + 1) = Suc (unat block)"
      by (intro unat_succ_below [of block nb]) simp
    define st' where "st' = st\<lparr>fetched := fetched st @
                 [\<lparr>in_database = conn, fetch_rel = r,
                   fetch_forknum = record_forknum st, fetch_blocknum = block\<rparr>]\<rparr>"
    have rb: "ReadBufferExtended conn block st = Inr st'"
      using "1.prems" by (simp add: ReadBufferExtended_def st'_def)
    have ih: "read_range conn (block + 1) bound nb (st'\<lparr>blocks_restored := blocks_restored st' + 1\<rparr>)
      = Inr (st'\<lparr>blocks_restored := blocks_restored st' + 1\<rparr>
              \<lparr>blocks_restored := blocks_restored (st'\<lparr>blocks_restored := blocks_restored st' + 1\<rparr>)
               + of_nat (length [unat (block + 1) ..< min (Suc (unat bound)) (unat nb)]),
             fetched := fetched (st'\<lparr>blocks_restored := blocks_restored st' + 1\<rparr>)
               @ block_fetches conn r (record_forknum (st'\<lparr>blocks_restored := blocks_restored st' + 1\<rparr>))
               [unat (block + 1) ..< min (Suc (unat bound)) (unat nb)]\<rparr>)"
      using True "1.prems" by (intro "1.IH" [OF _ _ rb]) (auto simp: st'_def not_le)
    have up: "[unat block ..< min (Suc (unat bound)) (unat nb)]
              = unat block # [Suc (unat block) ..< min (Suc (unat bound)) (unat nb)]"
      using lt by (simp add: upt_conv_Cons)
    have len: "min (Suc (unat bound)) (unat nb) - unat block
               = Suc (min (Suc (unat bound)) (unat nb) - Suc (unat block))"
      using lt by linarith
    show ?thesis
      apply (subst read_range.simps)
      using True apply (simp add: rb ih not_le [symmetric] del: upt_Suc)
      apply (simp add: suc up st'_def block_fetches_def len del: upt_Suc)
      done
  qed
qed

lemma read_record_r:
  "read_record env conn marker_r st (Inr w) = case_r env conn st (Inr w)"
  by (simp add: read_record_def)

lemma read_record_f:
  "read_record env conn marker_f st (Inr w) = case_f env conn st (Inr w)"
  by (simp add: read_record_def markers_distinct)

lemma read_record_b:
  "read_record env conn marker_b st (Inr w) = case_b conn st (Inr w)"
  by (simp add: read_record_def markers_distinct)

lemma read_record_N:
  "read_record env conn marker_N st (Inr w) = case_N env conn st (Inr w)"
  by (simp add: read_record_def markers_distinct)

lemma ReadLoop_record:
  "sig \<noteq> Some 0 \<Longrightarrow>
   ReadLoop env conn sig st (t # encode32 w @ rest) =
     (case read_record env conn t st (Inr w) of
        Inl e \<Rightarrow> Inl e
      | Inr st' \<Rightarrow> ReadLoop env conn (map_option (\<lambda>n. n - 1) sig) st' rest)"
  by (cases "read_record env conn t st (Inr w)") (simp_all add: fileRead4_encode32 length_encode32)

lemma below_nblocks_valid:
  fixes B nb :: BlockNumber
  assumes "B < nb"
  shows "B \<noteq> InvalidBlockNumber"
proof
  assume "B = InvalidBlockNumber"
  then have "unat B = 2 ^ 32 - 1"
    by (simp add: InvalidBlockNumber_def)
  moreover have "unat nb < 2 ^ 32"
    using unsigned_less [of nb, where 'a = nat] by simp
  moreover from assms have "unat B < unat nb"
    by (simp add: word_less_nat_alt)
  ultimately show False by simp
qed

lemma block_then_range:
  assumes rel: "rel st = Some r"
    and skip: "\<not> skip_relation st" "\<not> skip_fork st"
    and fork: "record_forknum st \<noteq> InvalidForkNumber"
    and B: "B < nblocks st"
    and nowrap: "unat B + unat L < 2 ^ 32"
    and sig: "sig \<noteq> Some 0" "sig \<noteq> Some 1"
  shows "ReadLoop env conn sig st (marker_b # encode32 B @ marker_N # encode32 L @ rest) =
         ReadLoop env conn (map_option (\<lambda>n. n - 2) sig)
           (st\<lparr>record_blocknum := B, skip_block := False,
               blocks_restored := blocks_restored st
                 + of_nat (length [unat B ..< min (Suc (unat B + unat L)) (unat (nblocks st))]),
               fetched := fetched st @ block_fetches conn r (record_forknum st)
                 [unat B ..< min (Suc (unat B + unat L)) (unat (nblocks st))]\<rparr>) rest"
proof -
  define st1 where "st1 = st\<lparr>record_blocknum := B, skip_block := False,
      blocks_restored := blocks_restored st + 1,
      fetched := fetched st @ block_fetches conn r (record_forknum st) [unat B]\<rparr>"
  have b: "read_record env conn marker_b st (Inr B) = Inr st1"
    using rel skip fork B
    by (simp add: read_record_b case_b_def and_then_def ReadBufferExtended_def st1_def
        block_fetches_def not_le [symmetric])
  have valid: "B \<noteq> InvalidBlockNumber"
    using B by (rule below_nblocks_valid)
  have sum: "unat (B + L) = unat B + unat L"
    using nowrap by (simp add: unat_word_ariths)
  have suc: "unat (B + 1) = Suc (unat B)"
    using B by (rule unat_succ_below)
  have lt: "unat B < min (Suc (unat B + unat L)) (unat (nblocks st))"
    using B by (simp add: word_less_nat_alt)
  have up: "[unat B ..< min (Suc (unat B + unat L)) (unat (nblocks st))]
            = unat B # [Suc (unat B) ..< min (Suc (unat B + unat L)) (unat (nblocks st))]"
    using lt by (simp add: upt_conv_Cons)
  have rel1: "rel st1 = Some r"
    using rel by (simp add: st1_def)
  let ?m = "min (Suc (unat B + unat L)) (unat (nblocks st))"
  have rr: "read_range conn (B + 1) (B + L) (nblocks st) st1 =
     Inr (st1\<lparr>blocks_restored := blocks_restored st1 + of_nat (length [Suc (unat B) ..< ?m]),
             fetched := fetched st1 @ block_fetches conn r (record_forknum st1)
               [Suc (unat B) ..< ?m]\<rparr>)"
    using read_range_eq [OF rel1, of conn "B + 1" "B + L" "nblocks st"]
    by (simp only: sum suc)
  have caseN: "case_N env conn st1 (Inr L) = read_range conn (B + 1) (B + L) (nblocks st) st1"
    using skip valid by (simp add: case_N_def and_then_def st1_def)
  have len: "?m - unat B = Suc (?m - Suc (unat B))"
    using lt by linarith
  have final: "st1\<lparr>blocks_restored := blocks_restored st1 + of_nat (length [Suc (unat B) ..< ?m]),
             fetched := fetched st1 @ block_fetches conn r (record_forknum st1)
               [Suc (unat B) ..< ?m]\<rparr>
       = st\<lparr>record_blocknum := B, skip_block := False,
               blocks_restored := blocks_restored st + of_nat (length [unat B ..< ?m]),
               fetched := fetched st @ block_fetches conn r (record_forknum st)
                 [unat B ..< ?m]\<rparr>"
    by (simp add: st1_def up block_fetches_def len del: upt_Suc)
  have n: "read_record env conn marker_N st1 (Inr L) =
           Inr (st\<lparr>record_blocknum := B, skip_block := False,
               blocks_restored := blocks_restored st
                 + of_nat (length [unat B ..< min (Suc (unat B + unat L)) (unat (nblocks st))]),
               fetched := fetched st @ block_fetches conn r (record_forknum st)
                 [unat B ..< min (Suc (unat B + unat L)) (unat (nblocks st))]\<rparr>)"
    by (simp only: read_record_N caseN rr final)
  have sig1: "map_option (\<lambda>n. n - 1) sig \<noteq> Some 0"
    using sig by (cases sig) auto
  have sig2: "map_option (\<lambda>n. n - 1) (map_option (\<lambda>n. n - 1) sig) = map_option (\<lambda>n. n - 2) sig"
    by (cases sig) auto
  have "ReadLoop env conn sig st (marker_b # encode32 B @ marker_N # encode32 L @ rest)
        = ReadLoop env conn (map_option (\<lambda>n. n - 1) sig) st1 (marker_N # encode32 L @ rest)"
    by (simp only: ReadLoop_record [OF sig(1)] b sum.case)
  then show ?thesis
    by (simp only: ReadLoop_record [OF sig1] n sum.case sig2)
qed

lemma ReadLoop_last_record:
  "sig \<noteq> Some 0 \<Longrightarrow>
   ReadLoop env conn sig st (t # encode32 w) =
     (case read_record env conn t st (Inr w) of Inl e \<Rightarrow> Inl e | Inr st' \<Rightarrow> Inr st')"
  using ReadLoop_record [of sig env conn st t w "[]"]
  by (cases "read_record env conn t st (Inr w)") simp_all

text \<open>The scenario of claim C3, for any server in which the relation resolves.\<close>

lemma db1_scenario:
  assumes fil: "dir filenum = Some db1_savefile" and num: "2 \<le> filenum"
    and sig: "sigterm_after env = None"
    and oid: "GetRelOid env ''db1'' 42 = oid" "oid \<noteq> InvalidOid"
    and fork: "smgrexists env ''db1'' oid 0"
    and nb: "13 \<le> RelationGetNumberOfBlocksInFork env ''db1'' oid 0"
  shows "fetches_of (ReadBlocks env dir filenum) = Inr (block_fetches ''db1'' oid 0 [10, 11, 12])"
proof -
  let ?nb = "RelationGetNumberOfBlocksInFork env ''db1'' oid 0"
  define st0 where "st0 = initial_read_state env"
  define st1 where "st1 = st0\<lparr>rel := Some oid, record_forknum := InvalidForkNumber,
      record_blocknum := InvalidBlockNumber, nblocks := 0, record_filenode := 42,
      relOid := oid, skip_relation := False\<rparr>"
  define st2 where "st2 = st1\<lparr>record_blocknum := InvalidBlockNumber, nblocks := ?nb,
      record_forknum := 0, skip_fork := False\<rparr>"
  have r: "read_record env ''db1'' marker_r st0 (Inr 42) = Inr st1"
    using oid by (simp add: read_record_r case_r_def and_then_def st1_def Let_def)
  have f: "read_record env ''db1'' marker_f st1 (Inr 0) = Inr st2"
    using oid fork by (simp add: read_record_f case_f_def and_then_def st1_def st2_def Let_def)
  have nb': "13 \<le> unat ?nb"
    using nb by (simp add: word_le_nat_alt)
  have B: "(10 :: BlockNumber) < nblocks st2"
    using nb' by (simp add: st2_def word_less_nat_alt)
  have pre: "rel st2 = Some oid" "\<not> skip_relation st2" "\<not> skip_fork st2"
    "record_forknum st2 \<noteq> InvalidForkNumber"
    by (simp_all add: st2_def st1_def InvalidForkNumber_def)
  have upt: "[unat (10 :: BlockNumber) ..< min (Suc (unat (10 :: BlockNumber) + unat (2 :: 32 word))) (unat (nblocks st2))]
       = [10, 11, 12]"
  proof -
    have "min (Suc (unat (10 :: BlockNumber) + unat (2 :: 32 word))) (unat (nblocks st2)) = 13"
      using nb' by (simp add: st2_def)
    then show ?thesis
      by (simp add: upt_rec)
  qed
  have nowrap: "unat (10 :: BlockNumber) + unat (2 :: 32 word) < 2 ^ 32"
    by simp
  have never: "(None :: nat option) \<noteq> Some 0" "(None :: nat option) \<noteq> Some 1"
    by simp_all
  note btr = block_then_range [OF pre B nowrap never, of env "''db1''" "[]", unfolded upt]
  have loop: "ReadLoop env ''db1'' None st0 (contents db1_savefile)
      = Inr (st2\<lparr>record_blocknum := 10, skip_block := False,
               blocks_restored := blocks_restored st2 + of_nat (length [10 :: nat, 11, 12]),
               fetched := fetched st2 @ block_fetches ''db1'' oid (record_forknum st2) [10, 11, 12]\<rparr>)"
  proof -
    have c: "contents db1_savefile = marker_r # encode32 42 @ marker_f # encode32 0
               @ marker_b # encode32 10 @ marker_N # encode32 2 @ []"
      by (simp add: db1_savefile_def)
    have "ReadLoop env ''db1'' None st0 (contents db1_savefile)
        = ReadLoop env ''db1'' None st1 (marker_f # encode32 0 @ marker_b # encode32 10 @ marker_N # encode32 2 @ [])"
      by (simp add: c ReadLoop_record r del: ReadLoop.simps)
    also have "\<dots> = ReadLoop env ''db1'' None st2 (marker_b # encode32 10 @ marker_N # encode32 2 @ [])"
      by (simp add: ReadLoop_record f del: ReadLoop.simps)
    also have "\<dots> = Inr (st2\<lparr>record_blocknum := 10, skip_block := False,
               blocks_restored := blocks_restored st2 + of_nat (length [10 :: nat, 11, 12]),
               fetched := fetched st2 @ block_fetches ''db1'' oid (record_forknum st2) [10, 11, 12]\<rparr>)"
      by (simp only: btr option.map ReadLoop.simps(1))
    finally show ?thesis .
  qed
  have name: "dbname db1_savefile = ''db1''"
    by (simp add: db1_savefile_def)
  have num': "filenum \<noteq> 1" "1 \<le> filenum"
    using num by simp_all
  have "fst (ReadBlocks env dir filenum) = Inr (st2\<lparr>record_blocknum := 10, skip_block := False,
               blocks_restored := blocks_restored st2 + of_nat (length [10 :: nat, 11, 12]),
               fetched := fetched st2 @ block_fetches ''db1'' oid (record_forknum st2) [10, 11, 12]\<rparr>)"
    using fil sig num' by (simp add: ReadBlocks_def name loop [unfolded st0_def])
  then show ?thesis
    by (simp add: fetches_of_def st2_def st1_def st0_def initial_read_state_def)
qed

text \<open>
  Claim C3. When relation and fork are open and block \<open>B\<close> lies below the fork's block
  count, a block record for \<open>B\<close> followed by a range record of length \<open>L\<close> fetches
  \<open>B\<close> and then \<open>B + 1\<close>, \<open>B + 2\<close>, ... in increasing order, up to \<open>B + L\<close> or up
  to the last block below the fork's block count, whichever comes first. The file
  \<open>[r:42, f:0, b:10, N:2]\<close> of \<open>db1\<close>, whose relation resolves and has at least 13
  blocks, makes the worker fetch exactly the blocks 10, 11, 12 of fork 0, in that order.
\<close>

theorem range_record_expansion:
  "(rel st = Some r \<and> \<not> skip_relation st \<and> \<not> skip_fork st
      \<and> record_forknum st \<noteq> InvalidForkNumber
      \<and> B < nblocks st \<and> unat B + unat L < 2 ^ 32 \<and> sig \<noteq> Some 0 \<and> sig \<noteq> Some 1
    \<longrightarrow> ReadLoop env conn sig st (marker_b # encode32 B @ marker_N # encode32 L @ rest) =
        ReadLoop env conn (map_option (\<lambda>n. n - 2) sig)
          (st\<lparr>record_blocknum := B, skip_block := False,
              blocks_restored := blocks_restored st
                + of_nat (length [unat B ..< min (Suc (unat B + unat L)) (unat (nblocks st))]),
              fetched := fetched st @ block_fetches conn r (record_forknum st)
                [unat B ..< min (Suc (unat B + unat L)) (unat (nblocks st))]\<rparr>) rest)
   \<and> (dir filenum = Some db1_savefile \<and> 2 \<le> filenum \<and> sigterm_after env' = None
      \<and> GetRelOid env' ''db1'' 42 = oid \<and> oid \<noteq> InvalidOid
      \<and> smgrexists env' ''db1'' oid 0
      \<and> 13 \<le> RelationGetNumberOfBlocksInFork env' ''db1'' oid 0
    \<longrightarrow> fetches_of (ReadBlocks env' dir filenum)
          = Inr (block_fetches ''db1'' oid 0 [10, 11, 12]))"
proof (intro conjI impI)
  assume "rel st = Some r \<and> \<not> skip_relation st \<and> \<not> skip_fork st
      \<and> record_forknum st \<noteq> InvalidForkNumber
      \<and> B < nblocks st \<and> unat B + unat L < 2 ^ 32 \<and> sig \<noteq> Some 0 \<and> sig \<noteq> Some 1"
  then show "ReadLoop env conn sig st (marker_b # encode32 B @ marker_N # encode32 L @ rest) =
        ReadLoop env conn (map_option (\<lambda>n. n - 2) sig)
          (st\<lparr>record_blocknum := B, skip_block := False,
              blocks_restored := blocks_restored st
                + of_nat (length [unat B ..< min (Suc (unat B + unat L)) (unat (nblocks st))]),
              fetched := fetched st @ block_fetches conn r (record_forknum st)
                [unat B ..< min (Suc (unat B + unat L)) (unat (nblocks st))]\<rparr>) rest"
    by (intro block_then_range) simp_all
next
  assume "dir filenum = Some db1_savefile \<and> 2 \<le> filenum \<and> sigterm_after env' = None
      \<and> GetRelOid env' ''db1'' 42 = oid \<and> oid \<noteq> InvalidOid
      \<and> smgrexists env' ''db1'' oid 0
      \<and> 13 \<le> RelationGetNumberOfBlocksInFork env' ''db1'' oid 0"
  then show "fetches_of (ReadBlocks env' dir filenum)
          = Inr (block_fetches ''db1'' oid 0 [10, 11, 12])"
    by (intro db1_scenario) simp_all
qed

text \<open>
  Witness for C3: a range of length 20 behind block 10 stops at the fork's 13 blocks,
  and the scenario on the example server.
\<close>

theorem range_record_expansion_witness:
  "ReadLoop (db1_env None) ''db1'' None fork_open_state
       (marker_b # encode32 10 @ marker_N # encode32 20 @ [])
     = Inr (fork_open_state\<lparr>record_blocknum := 10, blocks_restored := 3,
              fetched := block_fetches ''db1'' 16384 0 [10, 11, 12]\<rparr>)
   \<and> fetches_of (ReadBlocks (db1_env None) (Map.empty(2 \<mapsto> db1_savefile)) 2)
     = Inr (block_fetches ''db1'' 16384 0 [10, 11, 12])"
  using range_record_expansion [of fork_open_state 16384 10 20 None "db1_env None" "''db1''" "[]"
      "Map.empty(2 \<mapsto> db1_savefile)" 2 "db1_env None" 16384]
  by (simp add: fork_open_state_def db1_env_def InvalidForkNumber_def InvalidOid_def upt_rec
      del: ReadLoop.simps(2))

lemma db1_stopped_early:
  "ReadLoop (db1_env (Some 2)) ''db1'' (Some 2) (initial_read_state (db1_env (Some 2)))
     (contents db1_savefile) = Inr
     \<lparr>record_filenode = 42, record_forknum = 0, record_blocknum = InvalidBlockNumber,
      relOid = 16384, rel = Some 16384, skip_relation = False, skip_fork = False,
      skip_block = False, nblocks = 13, blocks_restored = 0, fetched = []\<rparr>"
  by (simp add: db1_savefile_def ReadLoop_record read_record_r read_record_f case_r_def
      case_f_def and_then_def db1_env_def initial_read_state_def InvalidOid_def
      del: ReadLoop.simps(2))
    (simp add: marker_b_def)

lemma fileRead4_take: "fileRead4 (take (4 + k) bs) = fileRead4 bs"
  by (simp add: fileRead4_def min_def take_all)

text \<open>
  A worker that sees the shutdown request after \<open>n\<close> records does what a worker that is
  never stopped does on the first \<open>n\<close> records (\<open>5 * n\<close> bytes) of the file.
\<close>

lemma ReadLoop_stop_take:
  "ReadLoop env conn (Some n) st bs = ReadLoop env conn None st (take (5 * n) bs)"
proof (induction n arbitrary: st bs)
  case 0
  show ?case by (cases bs) simp_all
next
  case (Suc n)
  show ?case
  proof (cases bs)
    case Nil
    then show ?thesis by simp
  next
    case (Cons t rest)
    have "5 * Suc n = Suc (4 + 5 * n)"
      by simp
    then have tk: "take (5 * Suc n) (t # rest) = t # take (4 + 5 * n) rest"
      by (simp only: take_Suc_Cons)
    have dr: "drop 4 (take (4 + 5 * n) rest) = take (5 * n) (drop 4 rest)"
      by (simp add: drop_take)
    show ?thesis
    proof (cases "read_record env conn t st (fileRead4 rest)")
      case (Inl e)
      then show ?thesis
        unfolding Cons tk by (simp add: fileRead4_take)
    next
      case (Inr st')
      then show ?thesis
        unfolding Cons tk by (simp add: fileRead4_take dr Suc.IH)
    qed
  qed
qed

text \<open>
  Claim C4, as stated, fails. On the example file a full pass fetches three blocks; a
  worker that sees the shutdown request after two records has fetched nothing, returns,
  and its save-file is gone from the directory.
\<close>

theorem stopped_worker_keeps_file_counterexample:
  "fetches_of (ReadBlocks (db1_env None) (Map.empty(2 \<mapsto> db1_savefile)) 2)
     = Inr (block_fetches ''db1'' 16384 0 [10, 11, 12])
   \<and> fetches_of (ReadBlocks (db1_env (Some 2)) (Map.empty(2 \<mapsto> db1_savefile)) 2) = Inr []
   \<and> snd (ReadBlocks (db1_env (Some 2)) (Map.empty(2 \<mapsto> db1_savefile)) 2) 2 = None"
proof -
  have "fetches_of (ReadBlocks (db1_env None) (Map.empty(2 \<mapsto> db1_savefile)) 2)
     = Inr (block_fetches ''db1'' 16384 0 [10, 11, 12])"
    by (rule db1_scenario) (simp_all add: db1_env_def InvalidOid_def)
  moreover have "ReadBlocks (db1_env (Some 2)) (Map.empty(2 \<mapsto> db1_savefile)) 2 =
     (Inr \<lparr>record_filenode = 42, record_forknum = 0, record_blocknum = InvalidBlockNumber,
           relOid = 16384, rel = Some 16384, skip_relation = False, skip_fork = False,
           skip_block = False, nblocks = 13, blocks_restored = 0, fetched = []\<rparr>,
      Map.empty)"
    using db1_stopped_early
    by (simp add: ReadBlocks_def) (simp add: db1_env_def db1_savefile_def)
  ultimately show ?thesis
    by (simp add: fetches_of_def)
qed

text \<open>
  Claim C4, amended. A worker that sees the shutdown request after \<open>n\<close> records, the
  first \<open>n\<close> records of its file being read without error, returns with the state of a
  full pass over those \<open>n\<close> records and removes its save-file, for every \<open>n\<close>. In
  general, a worker that returns has removed its save-file, whether it read the whole
  file or stopped at a shutdown request, and what it did is a full pass over an initial
  part of the file; a worker that ends in an error leaves the directory as it was.
\<close>

theorem stopped_worker_removes_save_file:
  "(fst (ReadBlocks env dir filenum) = Inr st \<longrightarrow>
      snd (ReadBlocks env dir filenum) = dir(filenum := None)
      \<and> (\<exists>f pre post. dir filenum = Some f \<and> contents f = pre @ post
            \<and> ReadLoop env (if filenum = 1 then guc_default_database env else dbname f) None
                 (initial_read_state env) pre = Inr st))
   \<and> (fst (ReadBlocks env dir filenum) = Inl e \<longrightarrow> snd (ReadBlocks env dir filenum) = dir)
   \<and> (dir filenum = Some f \<and> sigterm_after env = Some n
        \<and> (assert_checking env \<longrightarrow>
              1 \<le> filenum \<and> (if filenum = 1 then length (dbname f) = 0 else 0 < length (dbname f)))
        \<and> ReadLoop env (if filenum = 1 then guc_default_database env else dbname f) None
             (initial_read_state env) (take (5 * n) (contents f)) = Inr st'
      \<longrightarrow> ReadBlocks env dir filenum = (Inr st', dir(filenum := None)))"
proof (intro conjI impI)
  assume a: "fst (ReadBlocks env dir filenum) = Inr st"
  then obtain f where f: "dir filenum = Some f"
    by (cases "dir filenum") (auto simp: ReadBlocks_def)
  let ?conn = "if filenum = 1 then guc_default_database env else dbname f"
  from a f have loop: "ReadLoop env ?conn (sigterm_after env) (initial_read_state env) (contents f) = Inr st"
    by (auto simp: ReadBlocks_def Let_def split: if_splits sum.splits)
  with a f show "snd (ReadBlocks env dir filenum) = dir(filenum := None)"
    by (auto simp: ReadBlocks_def Let_def split: if_splits sum.splits)
  from ReadLoop_stop_prefix [OF loop] f
  show "\<exists>f pre post. dir filenum = Some f \<and> contents f = pre @ post
            \<and> ReadLoop env (if filenum = 1 then guc_default_database env else dbname f) None
                 (initial_read_state env) pre = Inr st"
    by blast
next
  assume "fst (ReadBlocks env dir filenum) = Inl e"
  then show "snd (ReadBlocks env dir filenum) = dir"
    by (auto simp: ReadBlocks_def Let_def split: option.splits if_splits sum.splits)
next
  let ?conn = "if filenum = 1 then guc_default_database env else dbname f"
  assume h: "dir filenum = Some f \<and> sigterm_after env = Some n
        \<and> (assert_checking env \<longrightarrow>
              1 \<le> filenum \<and> (if filenum = 1 then length (dbname f) = 0 else 0 < length (dbname f)))
        \<and> ReadLoop env (if filenum = 1 then guc_default_database env else dbname f) None
             (initial_read_state env) (take (5 * n) (contents f)) = Inr st'"
  then have "ReadLoop env ?conn (sigterm_after env) (initial_read_state env) (contents f) = Inr st'"
    by (simp only: ReadLoop_stop_take)
  moreover from h have "dir filenum = Some f"
    and "assert_checking env \<Longrightarrow> 1 \<le> filenum"
    and "assert_checking env \<Longrightarrow> filenum = 1 \<Longrightarrow> length (dbname f) = 0"
    and "assert_checking env \<Longrightarrow> filenum \<noteq> 1 \<Longrightarrow> 0 < length (dbname f)"
    by simp_all
  ultimately show "ReadBlocks env dir filenum = (Inr st', dir(filenum := None))"
    by (auto simp: ReadBlocks_def Let_def)
qed

text \<open>
  Witness for C4: the worker stopped after two records of the example file. The first
  two records, \<open>r:42\<close> and \<open>f:0\<close>, are read without error; the worker returns with
  relation and fork open, nothing fetched, and the file is removed.
\<close>

theorem stopped_worker_removes_save_file_witness:
  "ReadBlocks (db1_env (Some 2)) (Map.empty(2 \<mapsto> db1_savefile)) 2 =
     (Inr \<lparr>record_filenode = 42, record_forknum = 0, record_blocknum = InvalidBlockNumber,
           relOid = 16384, rel = Some 16384, skip_relation = False, skip_fork = False,
           skip_block = False, nblocks = 13, blocks_restored = 0, fetched = []\<rparr>,
      (Map.empty(2 \<mapsto> db1_savefile))(2 := None))
   \<and> snd (ReadBlocks (db1_env (Some 2)) (Map.empty(2 \<mapsto> db1_savefile)) 2) 2 = None"
proof -
  let ?env = "db1_env (Some 2)"
  let ?dir = "Map.empty(2 \<mapsto> db1_savefile)"
  let ?st = "\<lparr>record_filenode = 42, record_forknum = 0, record_blocknum = InvalidBlockNumber,
           relOid = 16384, rel = Some 16384, skip_relation = False, skip_fork = False,
           skip_block = False, nblocks = 13, blocks_restored = 0, fetched = []\<rparr>"
  have tk: "take (5 * 2) (contents db1_savefile)
      = marker_r # encode32 42 @ marker_f # encode32 0 @ []"
    by (simp add: db1_savefile_def length_encode32)
  have pass: "ReadLoop ?env ''db1'' None (initial_read_state ?env)
      (take (5 * 2) (contents db1_savefile)) = Inr ?st"
    unfolding tk
    by (simp add: ReadLoop_record ReadLoop_last_record read_record_r read_record_f case_r_def
        case_f_def and_then_def db1_env_def initial_read_state_def InvalidOid_def
        del: ReadLoop.simps(2))
  have conn: "(if (2 :: int) = 1 then guc_default_database ?env else dbname db1_savefile) = ''db1''"
    by (simp add: db1_savefile_def)
  have rb: "ReadBlocks ?env ?dir 2 = (Inr ?st, ?dir(2 := None))"
  proof (rule stopped_worker_removes_save_file
      [where env = ?env and dir = ?dir and filenum = 2 and f = db1_savefile and n = 2
         and st' = ?st, THEN conjunct2, THEN conjunct2, THEN mp], intro conjI impI)
    show "?dir 2 = Some db1_savefile" by simp
    show "sigterm_after ?env = Some 2" by (simp add: db1_env_def)
    show "(1 :: int) \<le> 2" by simp
    show "if (2 :: int) = 1 then length (dbname db1_savefile) = 0
          else 0 < length (dbname db1_savefile)"
      by (simp add: db1_savefile_def)
    show "ReadLoop ?env (if (2 :: int) = 1 then guc_default_database ?env else dbname db1_savefile)
        None (initial_read_state ?env) (take (5 * 2) (contents db1_savefile)) = Inr ?st"
      unfolding conn by (rule pass)
  qed
  then show ?thesis by simp
qed

text \<open>
  Claim C8 at its failing inputs. In a file whose first record is a block record, no
  fork record precedes it; the check reads the local \<open>record_forknum\<close>, which nothing
  has set. When that holds 0, the worker reports no error, returns, and removes the
  file. The same happens to a range record at the start of a file, through
  \<open>record_blocknum\<close>.
\<close>

theorem stray_first_record_not_detected:
  "ReadBlocks (db1_env None) (Map.empty(2 \<mapsto> stray_block_savefile)) 2
     = (Inr ((initial_read_state (db1_env None))\<lparr>record_blocknum := 10, skip_block := True\<rparr>),
        Map.empty)
   \<and> ReadBlocks (db1_env None) (Map.empty(2 \<mapsto> stray_range_savefile)) 2
     = (Inr (initial_read_state (db1_env None)), Map.empty)"
proof -
  have b: "ReadLoop (db1_env None) ''db1'' None (initial_read_state (db1_env None))
             (marker_b # encode32 10)
           = Inr ((initial_read_state (db1_env None))\<lparr>record_blocknum := 10, skip_block := True\<rparr>)"
    by (simp add: ReadLoop_last_record read_record_b case_b_def and_then_def db1_env_def
        initial_read_state_def InvalidForkNumber_def del: ReadLoop.simps(2))
  have rr: "read_range ''db1'' 1 2 0 (initial_read_state (db1_env None))
            = Inr (initial_read_state (db1_env None))"
    by (subst read_range.simps) simp
  have n: "ReadLoop (db1_env None) ''db1'' None (initial_read_state (db1_env None))
             (marker_N # encode32 2)
           = Inr (initial_read_state (db1_env None))"
    using rr
    by (simp add: ReadLoop_last_record read_record_N case_N_def and_then_def db1_env_def
        initial_read_state_def InvalidBlockNumber_def del: ReadLoop.simps(2))
  have env: "assert_checking (db1_env None)" "sigterm_after (db1_env None) = None"
    by (simp_all add: db1_env_def)
  have files: "dbname stray_block_savefile = ''db1''"
    "contents stray_block_savefile = marker_b # encode32 10"
    "dbname stray_range_savefile = ''db1''"
    "contents stray_range_savefile = marker_N # encode32 2"
    by (simp_all add: stray_block_savefile_def stray_range_savefile_def)
  show ?thesis
    by (simp add: ReadBlocks_def env files b n del: ReadLoop.simps)
qed

section \<open>Properties of the snapshot writer\<close>

text \<open>
  Claim C7 at its failing input. When no buffer is valid, the loop body never runs, so
  no file is opened: the save ends in the failed assertion \<open>Assert(file != NULL)\<close>, or
  without assertion checking in \<open>fileClose(NULL)\<close>, and the directory holds no file 1.
\<close>

theorem empty_scan_writes_no_file:
  "scan_buffers BufferDescriptors = [] \<longrightarrow>
     SaveBuffers env BufferDescriptors
       = Inl (if assert_checking env then TRAP_FailedAssertion else NullPointer,
              initial_save_state)
     \<and> savedir initial_save_state 1 = None"
  by (simp add: SaveBuffers_def and_then_def fileClose_def initial_save_state_def)

text \<open>Witness for C7: a cache whose only buffer is invalid.\<close>

theorem empty_scan_writes_no_file_witness:
  "SaveBuffers \<lparr>assert_checking = False, get_database_name = (\<lambda>d. Some ''db'')\<rparr>
      [\<lparr>BM_VALID = False, BM_TAG_VALID = False,
        tag = \<lparr>database = 0, filenode = 0, forknum = 0, blocknum = 0\<rparr>\<rparr>]
     = Inl (NullPointer, initial_save_state)
   \<and> savedir initial_save_state 1 = None"
  using empty_scan_writes_no_file
    [of "[\<lparr>BM_VALID = False, BM_TAG_VALID = False,
        tag = \<lparr>database = 0, filenode = 0, forknum = 0, blocknum = 0\<rparr>\<rparr>]"
        "\<lparr>assert_checking = False, get_database_name = (\<lambda>d. Some ''db'')\<rparr>"]
  by (simp add: scan_buffers_def)

subsection \<open>The sort\<close>

lemma SavedBuffer_key_inj: "SavedBuffer_key a = SavedBuffer_key b \<longleftrightarrow> a = b"
proof
  assume k: "SavedBuffer_key a = SavedBuffer_key b"
  then have "database a = database b" "filenode a = filenode b" "blocknum a = blocknum b"
    by (simp_all add: SavedBuffer_key_def word_unat_eq_iff)
  moreover from k have "sint (forknum a) = sint (forknum b)"
    by (simp add: SavedBuffer_key_def)
  then have "forknum a = forknum b"
    by (rule signed_word_eqI)
  ultimately show "a = b"
    by simp
qed simp

lemma SavedBufferCmp_less:
  "SavedBuffer_key a < SavedBuffer_key b \<Longrightarrow> SavedBufferCmp env a b = Inr (- 1)"
  by (auto simp: SavedBufferCmp_def SavedBuffer_key_def less_prod_def word_less_nat_alt)

lemma SavedBufferCmp_greater:
  "SavedBuffer_key b < SavedBuffer_key a \<Longrightarrow> SavedBufferCmp env a b = Inr 1"
  by (auto simp: SavedBufferCmp_def SavedBuffer_key_def less_prod_def word_less_nat_alt)

lemma qsort_insert_insort:
  "x \<notin> set ys \<Longrightarrow>
   qsort_insert (SavedBufferCmp env) x ys = Inr (insort_key SavedBuffer_key x ys)"
proof (induction ys)
  case Nil
  then show ?case by simp
next
  case (Cons y ys)
  then have "SavedBuffer_key x \<noteq> SavedBuffer_key y"
    by (simp add: SavedBuffer_key_inj)
  then consider "SavedBuffer_key x < SavedBuffer_key y" | "SavedBuffer_key y < SavedBuffer_key x"
    by (meson linorder_neqE)
  then show ?case
  proof cases
    case 1
    then have "SavedBuffer_key x \<le> SavedBuffer_key y"
      by (rule less_imp_le)
    with 1 show ?thesis
      by (simp add: SavedBufferCmp_less)
  next
    case 2
    then have "\<not> SavedBuffer_key x \<le> SavedBuffer_key y"
      by (simp add: not_le)
    with 2 Cons show ?thesis
      by (simp add: SavedBufferCmp_greater)
  qed
qed

lemma pg_qsort_sort_key:
  "distinct xs \<Longrightarrow> pg_qsort (SavedBufferCmp env) xs = Inr (sort_key SavedBuffer_key xs)"
  by (induction xs) (simp_all add: qsort_insert_insort)

lemma sort_key_unique:
  assumes "distinct xs" "distinct ys" "set xs = set ys"
  shows "sort_key SavedBuffer_key xs = sort_key SavedBuffer_key ys"
proof -
  let ?k = SavedBuffer_key
  have inj: "inj ?k"
    by (rule injI) (simp add: SavedBuffer_key_inj)
  have "map ?k (sort_key ?k xs) = map ?k (sort_key ?k ys)"
  proof (rule sorted_distinct_set_unique)
    show "sorted (map ?k (sort_key ?k xs))" "sorted (map ?k (sort_key ?k ys))"
      by simp_all
    show "distinct (map ?k (sort_key ?k xs))" "distinct (map ?k (sort_key ?k ys))"
      using assms inj by (simp_all add: distinct_map inj_on_def SavedBuffer_key_inj)
    show "set (map ?k (sort_key ?k xs)) = set (map ?k (sort_key ?k ys))"
      using assms by simp
  qed
  with inj show ?thesis
    by (simp add: inj_map_eq_map)
qed

text \<open>
  Claim C9. Two scans that hold the same set of pages, each page once, are sorted into
  one and the same array, ascending in \<open>(namespace_id, file_id, fork_id,
  block_number)\<close>, and the writer's result for them, every byte of every file, is the
  same; the comparator never answers 0 for two different pages.
\<close>

theorem write_determinism:
  assumes "distinct (scan_buffers cache1)" and "distinct (scan_buffers cache2)"
    and "set (scan_buffers cache1) = set (scan_buffers cache2)"
  shows "(\<exists>saved_buffers.
            pg_qsort (SavedBufferCmp env) (scan_buffers cache1) = Inr saved_buffers
          \<and> pg_qsort (SavedBufferCmp env) (scan_buffers cache2) = Inr saved_buffers
          \<and> sorted (map SavedBuffer_key saved_buffers)
          \<and> set saved_buffers = set (scan_buffers cache1))
       \<and> SaveBuffers env cache1 = SaveBuffers env cache2
       \<and> (a \<noteq> b \<longrightarrow> SavedBufferCmp env a b = Inr (- 1) \<or> SavedBufferCmp env a b = Inr 1)"
proof (intro conjI impI)
  let ?s = "sort_key SavedBuffer_key (scan_buffers cache1)"
  have s1: "pg_qsort (SavedBufferCmp env) (scan_buffers cache1) = Inr ?s"
    using assms(1) by (rule pg_qsort_sort_key)
  have s2: "pg_qsort (SavedBufferCmp env) (scan_buffers cache2) = Inr ?s"
    using assms by (simp add: pg_qsort_sort_key sort_key_unique [OF assms])
  from s1 s2 show "\<exists>saved_buffers.
            pg_qsort (SavedBufferCmp env) (scan_buffers cache1) = Inr saved_buffers
          \<and> pg_qsort (SavedBufferCmp env) (scan_buffers cache2) = Inr saved_buffers
          \<and> sorted (map SavedBuffer_key saved_buffers)
          \<and> set saved_buffers = set (scan_buffers cache1)"
    by (intro exI [of _ ?s]) simp
  from s1 s2 show "SaveBuffers env cache1 = SaveBuffers env cache2"
    by (simp add: SaveBuffers_def)
next
  assume "a \<noteq> b"
  then have "SavedBuffer_key a \<noteq> SavedBuffer_key b"
    by (simp add: SavedBuffer_key_inj)
  then consider "SavedBuffer_key a < SavedBuffer_key b" | "SavedBuffer_key b < SavedBuffer_key a"
    by (meson linorder_neqE)
  then show "SavedBufferCmp env a b = Inr (- 1) \<or> SavedBufferCmp env a b = Inr 1"
    by cases (simp_all add: SavedBufferCmp_less SavedBufferCmp_greater)
qed

text \<open>Witness for C9: the same two pages, scanned in either order.\<close>

theorem write_determinism_witness:
  "SaveBuffers db1_save_env [page_db5, page_global] = SaveBuffers db1_save_env [page_global, page_db5]
   \<and> SavedBufferCmp db1_save_env (tag page_global) (tag page_db5) = Inr (- 1)"
proof -
  have "tag page_db5 \<noteq> tag page_global"
    by (simp add: page_db5_def page_global_def)
  moreover have "scan_buffers [page_db5, page_global] = [tag page_db5, tag page_global]"
    "scan_buffers [page_global, page_db5] = [tag page_global, tag page_db5]"
    by (simp_all add: scan_buffers_def page_db5_def page_global_def)
  ultimately have "SaveBuffers db1_save_env [page_db5, page_global]
      = SaveBuffers db1_save_env [page_global, page_db5]"
    using write_determinism [of "[page_db5, page_global]" "[page_global, page_db5]" db1_save_env]
    by auto
  moreover have "SavedBufferCmp db1_save_env (tag page_global) (tag page_db5) = Inr (- 1)"
    by (simp add: SavedBufferCmp_def page_db5_def page_global_def)
  ultimately show ?thesis by simp
qed

subsection \<open>Runs of consecutive blocks\<close>

lemma count_range_run:
  "prev_database st = database l \<Longrightarrow> prev_filenode st = filenode l \<Longrightarrow>
   prev_forknum st = forknum l \<Longrightarrow> prev_blocknum st + range_counter st = blocknum l \<Longrightarrow>
   count_range st rest = st\<lparr>range_counter := range_counter st + of_nat (run_length l rest)\<rparr>"
proof (induction rest arbitrary: st l)
  case Nil
  then show ?case by simp
next
  case (Cons tmp rest)
  show ?case
  proof (cases "continues l tmp")
    case True
    let ?st = "st\<lparr>range_counter := range_counter st + 1\<rparr>"
    have "count_range ?st rest = ?st\<lparr>range_counter := range_counter ?st + of_nat (run_length tmp rest)\<rparr>"
      using Cons.prems True by (intro Cons.IH) (simp_all add: continues_def add.assoc)
    with True Cons.prems show ?thesis
      by (simp add: continues_def add.assoc)
  next
    case False
    with Cons.prems show ?thesis
      by (auto simp: continues_def add.assoc)
  qed
qed

lemma run_length_le: "run_length a rest \<le> length rest"
  by (induction rest arbitrary: a) auto

lemma continues_sorted:
  assumes "continues a b" and "SavedBuffer_key a < SavedBuffer_key b"
  shows "unat (blocknum b) = Suc (unat (blocknum a))"
proof -
  from assms have "unat (blocknum a) < unat (blocknum b)"
    by (auto simp: continues_def SavedBuffer_key_def less_prod_def)
  then have "blocknum a < blocknum b"
    by (simp add: word_less_nat_alt)
  then have "unat (blocknum a + 1) = Suc (unat (blocknum a))"
    by (rule unat_succ_below)
  with assms(1) show ?thesis
    by (simp add: continues_def)
qed

lemma run_length_nowrap:
  "sorted_wrt (\<lambda>a b. SavedBuffer_key a < SavedBuffer_key b) (l # rest) \<Longrightarrow>
   unat (blocknum l) + run_length l rest < 2 ^ 32"
proof (induction rest arbitrary: l)
  case Nil
  show ?case
    using unsigned_less [of "blocknum l", where 'a = nat] by simp
next
  case (Cons tmp rest)
  show ?case
  proof (cases "continues l tmp")
    case True
    from Cons.prems have "SavedBuffer_key l < SavedBuffer_key tmp"
      by simp
    with True have "unat (blocknum tmp) = Suc (unat (blocknum l))"
      by (rule continues_sorted)
    moreover from Cons.prems have "unat (blocknum tmp) + run_length tmp rest < 2 ^ 32"
      by (intro Cons.IH) simp
    ultimately show ?thesis
      using True by simp
  next
    case False
    then show ?thesis
      using unsigned_less [of "blocknum l", where 'a = nat] by simp
  qed
qed

lemma unat_run_length:
  assumes "sorted_wrt (\<lambda>a b. SavedBuffer_key a < SavedBuffer_key b) (l # rest)"
  shows "unat (of_nat (run_length l rest) :: 32 word) = run_length l rest"
proof -
  from run_length_nowrap [OF assms] have "run_length l rest < 2 ^ 32"
    by simp
  then show ?thesis
    by (simp add: unat_of_nat)
qed

subsection \<open>One pass through the loop body\<close>

lemma and_then_Inr: "and_then r f = Inr y \<longleftrightarrow> (\<exists>x. r = Inr x \<and> f x = Inr y)"
  by (cases r) (simp_all add: and_then_def)

lemma and_then_simps [simp]:
  "and_then (Inl e) f = Inl e" "and_then (Inr x) f = f x"
  by (simp_all add: and_then_def)

lemma written_fields [simp]:
  "file (written bs st) = file st"
  "database_counter (written bs st) = database_counter st"
  "prev_database (written bs st) = prev_database st"
  "prev_filenode (written bs st) = prev_filenode st"
  "prev_forknum (written bs st) = prev_forknum st"
  "prev_blocknum (written bs st) = prev_blocknum st"
  "range_counter (written bs st) = range_counter st"
  by (simp_all add: written_def split: option.splits)

lemma file_open_written [simp]: "file_open (written bs st) = file_open st"
  by (auto simp: file_open_def written_def split: option.splits)

lemma file_open_trackers [simp]:
  "file_open (st\<lparr>prev_database := a\<rparr>) = file_open st"
  "file_open (st\<lparr>prev_filenode := b\<rparr>) = file_open st"
  "file_open (st\<lparr>prev_forknum := c\<rparr>) = file_open st"
  "file_open (st\<lparr>prev_blocknum := d\<rparr>) = file_open st"
  "file_open (st\<lparr>range_counter := e\<rparr>) = file_open st"
  by (simp_all add: file_open_def)

lemma written_trackers [simp]:
  "written bs (st\<lparr>prev_database := a\<rparr>) = (written bs st)\<lparr>prev_database := a\<rparr>"
  "written bs (st\<lparr>prev_filenode := b\<rparr>) = (written bs st)\<lparr>prev_filenode := b\<rparr>"
  "written bs (st\<lparr>prev_forknum := c\<rparr>) = (written bs st)\<lparr>prev_forknum := c\<rparr>"
  "written bs (st\<lparr>prev_blocknum := d\<rparr>) = (written bs st)\<lparr>prev_blocknum := d\<rparr>"
  "written bs (st\<lparr>range_counter := e\<rparr>) = (written bs st)\<lparr>range_counter := e\<rparr>"
  by (simp_all add: written_def split: option.splits)

lemma written_written [simp]: "written bs2 (written bs1 st) = written (bs1 @ bs2) st"
  by (simp add: written_def split: option.splits)

lemma written_Nil [simp]: "written [] st = st"
  by (simp add: written_def map_upd_triv split: option.splits)

lemma fileWrite_open: "file_open st \<Longrightarrow> fileWrite bs st = Inr (written bs st)"
  by (auto simp: file_open_def fileWrite_def written_def)

lemma fileWrite_Inr: "fileWrite bs st = Inr st' \<Longrightarrow> file_open st \<and> st' = written bs st"
  by (auto simp: file_open_def fileWrite_def written_def split: option.splits)

lemma write_filenode_open:
  "file_open st \<Longrightarrow>
   write_filenode buf st =
     Inr ((written (marker_r # encode32 (filenode buf)) st)
            \<lparr>prev_filenode := filenode buf, prev_forknum := InvalidForkNumber,
             prev_blocknum := InvalidBlockNumber, range_counter := 0\<rparr>)"
  by (simp add: write_filenode_def fileWrite_open)

lemma write_forknum_open:
  "file_open st \<Longrightarrow>
   write_forknum buf st =
     Inr ((written (marker_f # encode32 (forknum buf)) st)
            \<lparr>prev_forknum := forknum buf, prev_blocknum := InvalidBlockNumber,
             range_counter := 0\<rparr>)"
  by (simp add: write_forknum_def fileWrite_open)

lemma write_block_open:
  "file_open st \<Longrightarrow>
   write_block buf st =
     Inr ((written (marker_b # encode32 (blocknum buf)) st)\<lparr>prev_blocknum := blocknum buf\<rparr>)"
  by (simp add: write_block_def fileWrite_open)

lemma write_range_open:
  "file_open st \<Longrightarrow>
   write_range st = Inr (written (marker_N # encode32 (range_counter st)) st)"
  by (simp add: write_range_def fileWrite_open)

lemma write_filenode_closed: "\<not> file_open st \<Longrightarrow> \<exists>e. write_filenode buf st = Inl e"
  using fileWrite_Inr [of "[marker_r]" st]
  by (cases "fileWrite [marker_r] st") (auto simp: write_filenode_def)

lemma write_forknum_closed: "\<not> file_open st \<Longrightarrow> \<exists>e. write_forknum buf st = Inl e"
  using fileWrite_Inr [of "[marker_f]" st]
  by (cases "fileWrite [marker_f] st") (auto simp: write_forknum_def)

lemma write_block_closed: "\<not> file_open st \<Longrightarrow> \<exists>e. write_block buf st = Inl e"
  using fileWrite_Inr [of "[marker_b]" st]
  by (cases "fileWrite [marker_b] st") (auto simp: write_block_def)

lemma write_headers_same_db:
  assumes "i \<noteq> 0" and "database buf = prev_database st" and "file_open st"
  shows "and_then (write_headers env i st buf) (write_block buf) =
     Inr ((written
            ((if filenode buf \<noteq> prev_filenode st then marker_r # encode32 (filenode buf) else [])
             @ (if forknum buf \<noteq> (if filenode buf \<noteq> prev_filenode st then InvalidForkNumber
                                   else prev_forknum st)
                then marker_f # encode32 (forknum buf) else [])
             @ marker_b # encode32 (blocknum buf)) st)
          \<lparr>prev_filenode := filenode buf, prev_forknum := forknum buf,
           prev_blocknum := blocknum buf,
           range_counter := (if filenode buf \<noteq> prev_filenode st
               \<or> forknum buf \<noteq> prev_forknum st then 0 else range_counter st)\<rparr>)"
proof (cases "filenode buf \<noteq> prev_filenode st")
  case True
  show ?thesis
  proof (cases "forknum buf \<noteq> InvalidForkNumber")
    case f: True
    with True assms show ?thesis
      by (simp add: write_headers_def write_filenode_open write_forknum_open write_block_open)
  next
    case f: False
    with True assms show ?thesis
      by (simp add: write_headers_def write_filenode_open write_block_open)
  qed
next
  case False
  show ?thesis
  proof (cases "forknum buf \<noteq> prev_forknum st")
    case f: True
    with False assms show ?thesis
      by (simp add: write_headers_def write_forknum_open write_block_open)
  next
    case f: False
    with False assms show ?thesis
      by (simp add: write_headers_def write_block_open)
  qed
qed

lemma and_then_assoc: "and_then (and_then r f) g = and_then r (\<lambda>x. and_then (f x) g)"
  by (cases r) simp_all

lemma SaveStep_assoc:
  "SaveStep env i st buf rest =
     and_then (and_then (write_headers env i st buf) (write_block buf))
       (\<lambda>st. let st = count_range (st\<lparr>range_counter := 0\<rparr>) rest
             in if range_counter st \<noteq> 0 then write_range st else Inr st)"
  by (simp add: SaveStep_def and_then_assoc)

lemma SaveStep_same_db:
  assumes "i \<noteq> 0" and "database buf = prev_database st" and "file_open st"
  shows "SaveStep env i st buf rest =
     Inr ((written (step_bytes (prev_filenode st) (prev_forknum st) buf (run_length buf rest)) st)
          \<lparr>prev_filenode := filenode buf, prev_forknum := forknum buf,
           prev_blocknum := blocknum buf,
           range_counter := of_nat (run_length buf rest)\<rparr>)"
proof -
  let ?hdr = "(if filenode buf \<noteq> prev_filenode st then marker_r # encode32 (filenode buf) else [])
             @ (if forknum buf \<noteq> (if filenode buf \<noteq> prev_filenode st then InvalidForkNumber
                                   else prev_forknum st)
                then marker_f # encode32 (forknum buf) else [])
             @ marker_b # encode32 (blocknum buf)"
  define stb where "stb = (written ?hdr st)
          \<lparr>prev_filenode := filenode buf, prev_forknum := forknum buf,
           prev_blocknum := blocknum buf\<rparr>"
  have hb: "and_then (write_headers env i st buf) (write_block buf)
            = Inr (stb\<lparr>range_counter := (if filenode buf \<noteq> prev_filenode st
               \<or> forknum buf \<noteq> prev_forknum st then 0 else range_counter st)\<rparr>)"
    using write_headers_same_db [OF assms, of env] by (simp add: stb_def)
  have cr: "count_range (stb\<lparr>range_counter := 0\<rparr>) rest
            = stb\<lparr>range_counter := of_nat (run_length buf rest)\<rparr>"
    using count_range_run [of "stb\<lparr>range_counter := 0\<rparr>" buf rest] assms(2)
    by (simp add: stb_def)
  define st2 where "st2 = stb\<lparr>range_counter := of_nat (run_length buf rest)\<rparr>"
  have op: "file_open st2"
    using assms(3) by (simp add: st2_def stb_def)
  have rc: "range_counter st2 = of_nat (run_length buf rest)"
    by (simp add: st2_def)
  have "SaveStep env i st buf rest = (if range_counter st2 \<noteq> 0 then write_range st2 else Inr st2)"
    by (simp add: SaveStep_assoc hb cr st2_def [symmetric] Let_def)
  also have "\<dots> = Inr (written (if (of_nat (run_length buf rest) :: 32 word) \<noteq> 0
        then marker_N # encode32 (of_nat (run_length buf rest)) else []) st2)"
    by (simp add: write_range_open [OF op] rc)
  also have "written (if (of_nat (run_length buf rest) :: 32 word) \<noteq> 0
        then marker_N # encode32 (of_nat (run_length buf rest)) else []) st2
      = (written (step_bytes (prev_filenode st) (prev_forknum st) buf (run_length buf rest)) st)
          \<lparr>prev_filenode := filenode buf, prev_forknum := forknum buf,
           prev_blocknum := blocknum buf,
           range_counter := of_nat (run_length buf rest)\<rparr>"
    by (simp add: st2_def stb_def step_bytes_def)
  finally show ?thesis .
qed

lemma SaveStep_switch:
  assumes "i \<noteq> 0" and "database buf \<noteq> prev_database st" and "file st \<noteq> None"
    and "get_database_name env (database buf) = Some nm"
  shows "SaveStep env i st buf rest = SaveStep env i (database_opened nm buf st) buf rest"
proof -
  have "open_database_savefile env buf st = Inr (database_opened nm buf st)"
    using assms(3,4)
    by (auto simp: open_database_savefile_def Let_def fileClose_def fileOpen_w_def
        writeDBName_def database_opened_def)
  moreover have "prev_database (database_opened nm buf st) = database buf"
    by (simp add: database_opened_def)
  ultimately show ?thesis
    using assms(1,2) by (simp add: SaveStep_def write_headers_def)
qed

lemma SaveStep_first:
  assumes "assert_checking env \<longrightarrow> database buf = InvalidOid"
  shows "SaveStep env 0 st buf rest = SaveStep env (Suc 0) (global_opened buf st) buf rest"
proof -
  have "open_global_savefile env buf st = Inr (global_opened buf st)"
    using assms
    by (auto simp: open_global_savefile_def fileOpen_w_def writeDBName_def global_opened_def)
  moreover have "prev_database (global_opened buf st) = database buf"
    by (simp add: global_opened_def)
  ultimately show ?thesis
    by (simp add: SaveStep_def write_headers_def)
qed

lemma SaveStep_index: "i \<noteq> 0 \<Longrightarrow> j \<noteq> 0 \<Longrightarrow> SaveStep env i st buf rest = SaveStep env j st buf rest"
  by (simp add: SaveStep_def write_headers_def)

lemma SaveLoop_index: "i \<noteq> 0 \<Longrightarrow> j \<noteq> 0 \<Longrightarrow> SaveLoop env i st bufs = SaveLoop env j st bufs"
proof (induction env i st bufs arbitrary: j rule: SaveLoop.induct)
  case (1 env i st)
  show ?case by simp
next
  case (2 env i st buf rest)
  have step: "SaveStep env i st buf rest = SaveStep env j st buf rest"
    using "2.prems" by (rule SaveStep_index)
  show ?case
  proof (cases "SaveStep env i st buf rest")
    case (Inl e)
    with step have "SaveStep env j st buf rest = Inl e" by simp
    with Inl show ?thesis by simp
  next
    case (Inr st')
    with step have sj: "SaveStep env j st buf rest = Inr st'" by simp
    have "SaveLoop env (i + unat (range_counter st') + 1) st' (drop (unat (range_counter st')) rest)
        = SaveLoop env (j + unat (range_counter st') + 1) st' (drop (unat (range_counter st')) rest)"
      using Inr by (intro "2.IH") simp_all
    with Inr sj show ?thesis by simp
  qed
qed

lemma run_length_append:
  "\<not> (rest \<noteq> [] \<and> continues (last (a # pre)) (hd rest)) \<Longrightarrow>
   run_length a (pre @ rest) = run_length a pre"
proof (induction pre arbitrary: a)
  case Nil
  then show ?case by (cases rest) auto
next
  case (Cons p ps)
  then show ?case by auto
qed

lemma run_length_successively:
  "successively continues (a # run) \<Longrightarrow> run_length a run = length run"
  by (induction run arbitrary: a) auto

lemma open_global_savefile_eq:
  "open_global_savefile env buf st =
     (if assert_checking env \<and> database buf \<noteq> InvalidOid then Inl (TRAP_FailedAssertion, st)
      else Inr (global_opened buf st))"
  by (auto simp: open_global_savefile_def fileOpen_w_def writeDBName_def global_opened_def)

lemma open_database_savefile_Inr:
  "open_database_savefile env buf st = Inr st' \<Longrightarrow> prev_database st' = database buf"
  by (auto simp: open_database_savefile_def Let_def and_then_Inr split: if_splits)

lemma write_filenode_Inr:
  assumes "write_filenode buf st = Inr st'"
  shows "prev_filenode st' = filenode buf" and "prev_database st' = prev_database st"
proof -
  have "file_open st"
    using assms write_filenode_closed [of st buf] by auto
  with assms show "prev_filenode st' = filenode buf" and "prev_database st' = prev_database st"
    by (auto simp: write_filenode_open)
qed

lemma write_forknum_Inr:
  assumes "write_forknum buf st = Inr st'"
  shows "prev_forknum st' = forknum buf" and "prev_filenode st' = prev_filenode st"
    and "prev_database st' = prev_database st"
proof -
  have "file_open st"
    using assms write_forknum_closed [of st buf] by auto
  with assms show "prev_forknum st' = forknum buf" and "prev_filenode st' = prev_filenode st"
    and "prev_database st' = prev_database st"
    by (auto simp: write_forknum_open)
qed

lemma write_block_Inr:
  assumes "write_block buf st = Inr st'"
  shows "prev_blocknum st' = blocknum buf" and "prev_forknum st' = prev_forknum st"
    and "prev_filenode st' = prev_filenode st" and "prev_database st' = prev_database st"
proof -
  have "file_open st"
    using assms write_block_closed [of st buf] by auto
  with assms show "prev_blocknum st' = blocknum buf" and "prev_forknum st' = prev_forknum st"
    and "prev_filenode st' = prev_filenode st" and "prev_database st' = prev_database st"
    by (auto simp: write_block_open)
qed

lemma write_headers_Inr:
  assumes "write_headers env i st buf = Inr st'"
  shows "prev_database st' = database buf \<and> prev_filenode st' = filenode buf
         \<and> prev_forknum st' = forknum buf"
proof -
  from assms obtain st1 st2 st3
    where s1: "(if i = 0 then open_global_savefile env buf st else Inr st) = Inr st1"
      and s2: "(if database buf \<noteq> prev_database st1
                then open_database_savefile env buf st1 else Inr st1) = Inr st2"
      and s3: "(if filenode buf \<noteq> prev_filenode st2
                then write_filenode buf st2 else Inr st2) = Inr st3"
      and s4: "(if forknum buf \<noteq> prev_forknum st3 then write_forknum buf st3 else Inr st3) = Inr st'"
    unfolding write_headers_def and_then_Inr by blast
  from s2 have d2: "prev_database st2 = database buf"
    by (cases "database buf \<noteq> prev_database st1") (auto dest: open_database_savefile_Inr)
  from s3 d2 have d3: "prev_database st3 = database buf" "prev_filenode st3 = filenode buf"
    by (cases "filenode buf \<noteq> prev_filenode st2"; auto dest: write_filenode_Inr)+
  from s4 d3 show ?thesis
    by (cases "forknum buf \<noteq> prev_forknum st3") (auto dest: write_forknum_Inr)
qed

lemma SaveStep_run:
  "SaveStep env i st buf rest =
     and_then (and_then (write_headers env i st buf) (write_block buf))
       (\<lambda>st. let st = st\<lparr>range_counter := of_nat (run_length buf rest)\<rparr>
             in if range_counter st \<noteq> 0 then write_range st else Inr st)"
proof (cases "and_then (write_headers env i st buf) (write_block buf)")
  case (Inl e)
  then show ?thesis
    by (simp add: SaveStep_assoc)
next
  case (Inr stb)
  then obtain sth where h: "write_headers env i st buf = Inr sth"
    and b: "write_block buf sth = Inr stb"
    unfolding and_then_Inr by blast
  from write_headers_Inr [OF h] write_block_Inr [OF b]
  have tr: "prev_database stb = database buf" "prev_filenode stb = filenode buf"
    "prev_forknum stb = forknum buf" "prev_blocknum stb = blocknum buf"
    by simp_all
  have "count_range (stb\<lparr>range_counter := 0\<rparr>) rest
        = stb\<lparr>range_counter := of_nat (run_length buf rest)\<rparr>"
    using count_range_run [of "stb\<lparr>range_counter := 0\<rparr>" buf rest] tr by simp
  with Inr show ?thesis
    by (simp add: SaveStep_assoc)
qed

lemma write_range_Inr: "write_range st = Inr st' \<Longrightarrow> range_counter st' = range_counter st"
  by (auto simp: write_range_def and_then_Inr dest!: fileWrite_Inr)

lemma SaveStep_range_counter:
  assumes "SaveStep env i st buf rest = Inr st'"
  shows "range_counter st' = of_nat (run_length buf rest)"
proof -
  from assms obtain stb
    where "(let st = stb\<lparr>range_counter := of_nat (run_length buf rest)\<rparr>
            in if range_counter st \<noteq> 0 then write_range st else Inr st) = Inr st'"
    unfolding SaveStep_run and_then_Inr by blast
  then show ?thesis
    by (auto simp: Let_def split: if_splits dest: write_range_Inr)
qed

lemma SaveStep_same_run:
  "run_length buf rest = run_length buf rest' \<Longrightarrow>
   SaveStep env i st buf rest = SaveStep env i st buf rest'"
  by (simp add: SaveStep_run)

lemma strictly_sorted_drop:
  "sorted_wrt (\<lambda>a b. SavedBuffer_key a < SavedBuffer_key b) xs \<Longrightarrow>
   sorted_wrt (\<lambda>a b. SavedBuffer_key a < SavedBuffer_key b) (drop n xs)"
  by (rule sorted_wrt_drop)

lemma SaveLoop_append:
  assumes "sorted_wrt (\<lambda>a b. SavedBuffer_key a < SavedBuffer_key b) pre"
    and "\<not> (pre \<noteq> [] \<and> rest \<noteq> [] \<and> continues (last pre) (hd rest))"
  shows "SaveLoop env i st (pre @ rest) =
         and_then (SaveLoop env i st pre) (\<lambda>st'. SaveLoop env (i + length pre) st' rest)"
  using assms
proof (induction env i st pre rule: SaveLoop.induct)
  case (1 env i st)
  show ?case by simp
next
  case (2 env i st buf pre)
  let ?n = "run_length buf pre"
  have run: "run_length buf (pre @ rest) = ?n"
    using "2.prems"(2) by (intro run_length_append) auto
  have step: "SaveStep env i st buf (pre @ rest) = SaveStep env i st buf pre"
    using run by (rule SaveStep_same_run)
  show ?case
  proof (cases "SaveStep env i st buf pre")
    case (Inl e)
    with step show ?thesis by simp
  next
    case (Inr st1)
    have rc: "unat (range_counter st1) = ?n"
      using SaveStep_range_counter [OF Inr] unat_run_length [OF "2.prems"(1)] by simp
    have le: "?n \<le> length pre"
      by (rule run_length_le)
    have sorted': "sorted_wrt (\<lambda>a b. SavedBuffer_key a < SavedBuffer_key b) (drop ?n pre)"
      using "2.prems"(1) by (intro sorted_wrt_drop) simp
    have bound: "\<not> (drop ?n pre \<noteq> [] \<and> rest \<noteq> [] \<and> continues (last (drop ?n pre)) (hd rest))"
      using "2.prems"(2) by (cases "pre = []") auto
    have ih: "SaveLoop env (i + ?n + 1) st1 (drop ?n pre @ rest) =
         and_then (SaveLoop env (i + ?n + 1) st1 (drop ?n pre))
           (\<lambda>st'. SaveLoop env (i + ?n + 1 + length (drop ?n pre)) st' rest)"
      using "2.IH" [OF Inr] sorted' bound by (simp add: rc)
    have idx: "i + ?n + 1 + length (drop ?n pre) = i + length (buf # pre)"
      using le by simp
    show ?thesis
      using Inr step le ih by (simp add: rc idx)
  qed
qed

subsection \<open>Run-length compression\<close>

lemma strictly_sorted_key:
  assumes "sorted (map SavedBuffer_key s)" and "distinct s"
  shows "sorted_wrt (\<lambda>a b. SavedBuffer_key a < SavedBuffer_key b) s"
proof -
  have "distinct (map SavedBuffer_key s)"
    using assms(2) by (simp add: distinct_map inj_on_def SavedBuffer_key_inj)
  with assms(1) have "sorted_wrt (<) (map SavedBuffer_key s)"
    by (simp add: strict_sorted_iff)
  then show ?thesis
    by (simp add: sorted_wrt_map)
qed

lemma SaveLoop_run:
  assumes sorted: "sorted_wrt (\<lambda>a b. SavedBuffer_key a < SavedBuffer_key b) (e0 # run @ post)"
    and run: "run \<noteq> []" "successively continues (e0 # run)"
    and post: "post = [] \<or> \<not> continues (last run) (hd post)"
  shows "SaveLoop env j st (e0 # run @ post) =
           and_then (write_headers env j st e0)
             (\<lambda>st. and_then (write_block e0 st)
               (\<lambda>st. and_then (write_range (st\<lparr>range_counter := of_nat (length run)\<rparr>))
                 (\<lambda>st. SaveLoop env (j + length run + 1) st post)))"
    and "unat (of_nat (length run) :: 32 word) = length run"
proof -
  have len: "run_length e0 (run @ post) = length run"
    using run post run_length_append [of post e0 run] run_length_successively [of e0 run]
    by auto
  show un: "unat (of_nat (length run) :: 32 word) = length run"
    using unat_run_length [OF sorted] len by simp
  then have nz: "(of_nat (length run) :: 32 word) \<noteq> 0"
    using run(1) by (metis length_0_conv unat_0)
  have step: "SaveStep env j st e0 (run @ post) =
      and_then (and_then (write_headers env j st e0) (write_block e0))
        (\<lambda>st. write_range (st\<lparr>range_counter := of_nat (length run)\<rparr>))"
    using nz by (simp add: SaveStep_run len)
  have loop: "SaveLoop env j st (e0 # run @ post) =
      and_then (SaveStep env j st e0 (run @ post))
        (\<lambda>st'. SaveLoop env (j + length run + 1) st' post)"
  proof (cases "SaveStep env j st e0 (run @ post)")
    case (Inl e)
    then show ?thesis by simp
  next
    case (Inr st')
    have "unat (range_counter st') = length run"
      using SaveStep_range_counter [OF Inr] len un by simp
    with Inr show ?thesis by simp
  qed
  show "SaveLoop env j st (e0 # run @ post) =
           and_then (write_headers env j st e0)
             (\<lambda>st. and_then (write_block e0 st)
               (\<lambda>st. and_then (write_range (st\<lparr>range_counter := of_nat (length run)\<rparr>))
                 (\<lambda>st. SaveLoop env (j + length run + 1) st post)))"
    by (simp only: loop step and_then_assoc)
qed

text \<open>
  Claim C2. In a sorted array of pages, each page once, let \<open>e0\<close> followed by the
  pages \<open>run\<close> be a maximal run of consecutive blocks of one fork of one relation of one
  database: every page of \<open>run\<close> continues the page before it, the page before
  \<open>e0\<close> does not continue into \<open>e0\<close>, and the page behind the run does not continue
  it. Then the loop handles the pages before the run, and for the run writes the
  headers that \<open>e0\<close> needs, one block record for \<open>e0\<close>, and one range record whose
  length is the number of pages in \<open>run\<close>; it goes on behind the run. So \<open>k\<close>
  consecutive blocks give one block record and one range record of length \<open>k - 1\<close>,
  and not \<open>k\<close> block records. The count of a range stops at a page of another
  database, relation or fork, whatever its block number.
\<close>

theorem run_length_compression:
  assumes "sorted (map SavedBuffer_key (pre @ e0 # run @ post))"
    and "distinct (pre @ e0 # run @ post)"
    and "run \<noteq> []" and "successively continues (e0 # run)"
    and "pre = [] \<or> \<not> continues (last pre) e0"
    and "post = [] \<or> \<not> continues (last run) (hd post)"
  shows "SaveLoop env i st (pre @ e0 # run @ post) =
           and_then (SaveLoop env i st pre)
             (\<lambda>st. and_then (write_headers env (i + length pre) st e0)
               (\<lambda>st. and_then (write_block e0 st)
                 (\<lambda>st. and_then (write_range (st\<lparr>range_counter := of_nat (length run)\<rparr>))
                   (\<lambda>st. SaveLoop env (i + length pre + length run + 1) st post))))
         \<and> unat (of_nat (length run) :: 32 word) = length run
         \<and> (database tmp \<noteq> prev_database st' \<or> filenode tmp \<noteq> prev_filenode st'
              \<or> forknum tmp \<noteq> prev_forknum st'
            \<longrightarrow> count_range st' (tmp # rest) = st')"
proof (intro conjI impI)
  have strict: "sorted_wrt (\<lambda>a b. SavedBuffer_key a < SavedBuffer_key b) (pre @ e0 # run @ post)"
    using assms(1,2) by (rule strictly_sorted_key)
  then have s1: "sorted_wrt (\<lambda>a b. SavedBuffer_key a < SavedBuffer_key b) pre"
    and s2: "sorted_wrt (\<lambda>a b. SavedBuffer_key a < SavedBuffer_key b) (e0 # run @ post)"
    by (simp_all add: sorted_wrt_append)
  have "SaveLoop env i st (pre @ e0 # run @ post) =
      and_then (SaveLoop env i st pre) (\<lambda>st'. SaveLoop env (i + length pre) st' (e0 # run @ post))"
    using s1 assms(5) by (intro SaveLoop_append) auto
  then show "SaveLoop env i st (pre @ e0 # run @ post) =
           and_then (SaveLoop env i st pre)
             (\<lambda>st. and_then (write_headers env (i + length pre) st e0)
               (\<lambda>st. and_then (write_block e0 st)
                 (\<lambda>st. and_then (write_range (st\<lparr>range_counter := of_nat (length run)\<rparr>))
                   (\<lambda>st. SaveLoop env (i + length pre + length run + 1) st post))))"
    by (simp only: SaveLoop_run(1) [OF s2 assms(3,4,6)])
  show "unat (of_nat (length run) :: 32 word) = length run"
    by (rule SaveLoop_run(2) [OF s2 assms(3,4,6)])
next
  assume "database tmp \<noteq> prev_database st' \<or> filenode tmp \<noteq> prev_filenode st'
              \<or> forknum tmp \<noteq> prev_forknum st'"
  then show "count_range st' (tmp # rest) = st'"
    by auto
qed

lemma file_open_global_opened: "file_open (global_opened buf st)"
  by (simp add: file_open_def global_opened_def)

lemma example_run_saved:
  "SaveLoop db1_save_env 0 initial_save_state
      [global_page 0 5, global_page 0 6, global_page 0 7, global_page 1 8]
   = Inr \<lparr>savedir = Map.empty(1 \<mapsto> \<lparr>dbname = [],
             contents = marker_r # encode32 1262 @ marker_f # encode32 0
               @ marker_b # encode32 5 @ marker_N # encode32 2
               @ marker_f # encode32 1 @ marker_b # encode32 8\<rparr>),
          file = Some 1, database_counter = 1, prev_database = 0, prev_filenode = 1262,
          prev_forknum = 1, prev_blocknum = 8, range_counter = 0\<rparr>"
proof -
  have a: "assert_checking db1_save_env \<longrightarrow> database (global_page 0 5) = InvalidOid"
    by (simp add: db1_save_env_def)
  have "SaveStep db1_save_env 0 initial_save_state (global_page 0 5)
          [global_page 0 6, global_page 0 7, global_page 1 8]
        = Inr \<lparr>savedir = Map.empty(1 \<mapsto> \<lparr>dbname = [],
             contents = marker_r # encode32 1262 @ marker_f # encode32 0
               @ marker_b # encode32 5 @ marker_N # encode32 2\<rparr>),
          file = Some 1, database_counter = 1, prev_database = 0, prev_filenode = 1262,
          prev_forknum = 0, prev_blocknum = 5, range_counter = 2\<rparr>"
    by (simp add: SaveStep_def write_headers_def open_global_savefile_eq global_opened_def
        write_filenode_def write_forknum_def write_block_def write_range_def fileWrite_def
        global_page_def initial_save_state_def db1_save_env_def
        InvalidOid_def InvalidForkNumber_def)
  moreover have "\<And>j. SaveStep db1_save_env (Suc j) \<lparr>savedir = Map.empty(1 \<mapsto> \<lparr>dbname = [],
             contents = marker_r # encode32 1262 @ marker_f # encode32 0
               @ marker_b # encode32 5 @ marker_N # encode32 2\<rparr>),
          file = Some 1, database_counter = 1, prev_database = 0, prev_filenode = 1262,
          prev_forknum = 0, prev_blocknum = 5, range_counter = 2\<rparr> (global_page 1 8) []
        = Inr \<lparr>savedir = Map.empty(1 \<mapsto> \<lparr>dbname = [],
             contents = marker_r # encode32 1262 @ marker_f # encode32 0
               @ marker_b # encode32 5 @ marker_N # encode32 2
               @ marker_f # encode32 1 @ marker_b # encode32 8\<rparr>),
          file = Some 1, database_counter = 1, prev_database = 0, prev_filenode = 1262,
          prev_forknum = 1, prev_blocknum = 8, range_counter = 0\<rparr>"
    by (simp add: SaveStep_def write_headers_def
        write_filenode_def write_forknum_def write_block_def write_range_def fileWrite_def
        global_page_def)
  ultimately show ?thesis
    by simp
qed

text \<open>
  Witness for C2: blocks 5, 6, 7 of fork 0 followed by block 8 of fork 1 of the same
  relation. The run is written as \<open>b:5, N:2\<close>; block 8, numerically the next, gets a
  fork record and a block record of its own.
\<close>

theorem run_length_compression_witness:
  "SaveLoop db1_save_env 0 initial_save_state
      [global_page 0 5, global_page 0 6, global_page 0 7, global_page 1 8]
   = and_then (write_headers db1_save_env 0 initial_save_state (global_page 0 5))
       (\<lambda>st. and_then (write_block (global_page 0 5) st)
         (\<lambda>st. and_then (write_range (st\<lparr>range_counter := 2\<rparr>))
           (\<lambda>st. SaveLoop db1_save_env 3 st [global_page 1 8])))
   \<and> saved_file (SaveLoop db1_save_env 0 initial_save_state
        [global_page 0 5, global_page 0 6, global_page 0 7, global_page 1 8]) 1
     = Some \<lparr>dbname = [],
             contents = marker_r # encode32 1262 @ marker_f # encode32 0
               @ marker_b # encode32 5 @ marker_N # encode32 2
               @ marker_f # encode32 1 @ marker_b # encode32 8\<rparr>"
proof -
  have h1: "sorted (map SavedBuffer_key
      ([] @ global_page 0 5 # [global_page 0 6, global_page 0 7] @ [global_page 1 8]))"
    by (simp add: SavedBuffer_key_def global_page_def less_eq_prod_def)
  have h2: "distinct ([] @ global_page 0 5 # [global_page 0 6, global_page 0 7] @ [global_page 1 8])"
    by (simp add: global_page_def)
  have h3: "[global_page 0 6, global_page 0 7] \<noteq> []"
    by simp
  have h4: "successively continues (global_page 0 5 # [global_page 0 6, global_page 0 7])"
    by (simp add: continues_def global_page_def)
  have h5: "[] = [] \<or> \<not> continues (last []) (global_page 0 5)"
    by simp
  have h6: "[global_page 1 8] = [] \<or>
      \<not> continues (last [global_page 0 6, global_page 0 7]) (hd [global_page 1 8])"
    by (simp add: continues_def global_page_def)
  have three: "(3 :: nat) = 0 + length ([] :: SavedBuffer list)
      + length [global_page 0 6, global_page 0 7] + 1"
    by simp
  have two: "(2 :: 32 word) = of_nat (length [global_page 0 6, global_page 0 7])"
    by simp
  have eq: "SaveLoop db1_save_env 0 initial_save_state
      [global_page 0 5, global_page 0 6, global_page 0 7, global_page 1 8]
   = and_then (write_headers db1_save_env 0 initial_save_state (global_page 0 5))
       (\<lambda>st. and_then (write_block (global_page 0 5) st)
         (\<lambda>st. and_then (write_range (st\<lparr>range_counter := 2\<rparr>))
           (\<lambda>st. SaveLoop db1_save_env 3 st [global_page 1 8])))"
    using run_length_compression [OF h1 h2 h3 h4 h5 h6, of db1_save_env 0 initial_save_state,
        THEN conjunct1]
    unfolding three two by simp
  have "saved_file (SaveLoop db1_save_env 0 initial_save_state
        [global_page 0 5, global_page 0 6, global_page 0 7, global_page 1 8]) 1
     = Some \<lparr>dbname = [],
             contents = marker_r # encode32 1262 @ marker_f # encode32 0
               @ marker_b # encode32 5 @ marker_N # encode32 2
               @ marker_f # encode32 1 @ marker_b # encode32 8\<rparr>"
    by (simp only: saved_file_def example_run_saved sum.case) simp
  with eq show ?thesis
    by (rule conjI)
qed

section \<open>The round trip\<close>

subsection \<open>The bytes of one database\<close>

lemma savedir_written_trackers:
  "savedir (written bs (st\<lparr>prev_filenode := a, prev_forknum := b, prev_blocknum := c,
                          range_counter := d\<rparr>)) = savedir (written bs st)"
  by simp

lemma SaveLoop_group:
  assumes "i \<noteq> 0" and "file_open st"
    and "\<forall>e \<in> set g. database e = prev_database st"
    and "sorted_wrt (\<lambda>a b. SavedBuffer_key a < SavedBuffer_key b) g"
    and "rest = [] \<or> database (hd rest) \<noteq> prev_database st"
    and "prev_filenode st = pf" and "prev_forknum st = pk"
  shows "\<exists>st'. SaveLoop env i st (g @ rest) = SaveLoop env (i + length g) st' rest
           \<and> savedir st' = savedir (written (encode_group pf pk g) st)
           \<and> file st' = file st \<and> database_counter st' = database_counter st
           \<and> prev_database st' = prev_database st"
  using assms
proof (induction pf pk g arbitrary: st i rule: encode_group.induct)
  case (1 pf pk)
  show ?case by (intro exI [of _ st]) simp
next
  case (2 pf pk buf g)
  let ?n = "run_length buf g"
  let ?st1 = "(written (step_bytes pf pk buf ?n) st)
          \<lparr>prev_filenode := filenode buf, prev_forknum := forknum buf,
           prev_blocknum := blocknum buf, range_counter := of_nat ?n\<rparr>"
  have db: "database buf = prev_database st"
    using "2.prems"(3) by simp
  have run: "run_length buf (g @ rest) = ?n"
  proof (rule run_length_append)
    have "database (last (buf # g)) = prev_database st"
      using "2.prems"(3) last_in_set [of "buf # g"] by blast
    with "2.prems"(5) show "\<not> (rest \<noteq> [] \<and> continues (last (buf # g)) (hd rest))"
      by (auto simp: continues_def)
  qed
  have step: "SaveStep env i st buf (g @ rest) = Inr ?st1"
    using SaveStep_same_db [OF "2.prems"(1) db "2.prems"(2), of env "g @ rest"]
      "2.prems"(6,7) by (simp add: run)
  have un: "unat (of_nat ?n :: 32 word) = ?n"
    using "2.prems"(4) by (rule unat_run_length)
  have le: "?n \<le> length g"
    by (rule run_length_le)
  have loop: "SaveLoop env i st ((buf # g) @ rest)
              = SaveLoop env (i + ?n + 1) ?st1 (drop ?n g @ rest)"
    using step le by (simp add: un)
  have "\<exists>st'. SaveLoop env (i + ?n + 1) ?st1 (drop ?n g @ rest)
             = SaveLoop env (i + ?n + 1 + length (drop ?n g)) st' rest
           \<and> savedir st' = savedir (written (encode_group (filenode buf) (forknum buf) (drop ?n g)) ?st1)
           \<and> file st' = file ?st1 \<and> database_counter st' = database_counter ?st1
           \<and> prev_database st' = prev_database ?st1"
  proof (rule "2.IH")
    show "i + ?n + 1 \<noteq> 0" by simp
    show "file_open ?st1" using "2.prems"(2) by simp
    show "\<forall>e \<in> set (drop ?n g). database e = prev_database ?st1"
      using "2.prems"(3) by (auto dest: in_set_dropD)
    show "sorted_wrt (\<lambda>a b. SavedBuffer_key a < SavedBuffer_key b) (drop ?n g)"
      using "2.prems"(4) by (intro sorted_wrt_drop) simp
    show "rest = [] \<or> database (hd rest) \<noteq> prev_database ?st1"
      using "2.prems"(5) by simp
    show "prev_filenode ?st1 = filenode buf" "prev_forknum ?st1 = forknum buf"
      by simp_all
  qed
  then obtain st' where st': "SaveLoop env (i + ?n + 1) ?st1 (drop ?n g @ rest)
             = SaveLoop env (i + ?n + 1 + length (drop ?n g)) st' rest"
    "savedir st' = savedir (written (encode_group (filenode buf) (forknum buf) (drop ?n g)) ?st1)"
    "file st' = file ?st1" "database_counter st' = database_counter ?st1"
    "prev_database st' = prev_database ?st1"
    by blast
  have idx: "i + ?n + 1 + length (drop ?n g) = i + length (buf # g)"
    using le by simp
  have "SaveLoop env i st ((buf # g) @ rest) = SaveLoop env (i + length (buf # g)) st' rest"
    using loop st'(1) idx by simp
  moreover have "savedir st' = savedir (written (encode_group pf pk (buf # g)) st)"
    using st'(2) by simp
  ultimately show ?case
    using st'(3,4,5) by (intro exI [of _ st']) simp
qed

subsection \<open>Reading the records of one pass\<close>









lemma run_pages_fields:
  assumes "e \<in> run_pages buf n"
  shows "database e = database buf" "filenode e = filenode buf" "forknum e = forknum buf"
  using assms by (auto simp: run_pages_def)









subsection \<open>Reading the file of one database\<close>



subsection \<open>Writing the files of the databases\<close>

lemma SaveLoop_switch:
  assumes "i \<noteq> 0" and "database buf \<noteq> prev_database st" and "file st \<noteq> None"
    and "get_database_name env (database buf) = Some nm"
  shows "SaveLoop env i st (buf # rest) = SaveLoop env i (database_opened nm buf st) (buf # rest)"
  by (simp only: SaveLoop.simps SaveStep_switch [OF assms])

lemma SaveLoop_first:
  assumes "assert_checking env \<longrightarrow> database buf = InvalidOid"
  shows "SaveLoop env 0 st (buf # rest) = SaveLoop env (Suc 0) (global_opened buf st) (buf # rest)"
proof (cases "SaveStep env (Suc 0) (global_opened buf st) buf rest")
  case (Inl e)
  then show ?thesis
    by (simp add: SaveStep_first [OF assms])
next
  case (Inr st')
  have "SaveLoop env (0 + unat (range_counter st') + 1) st' (drop (unat (range_counter st')) rest)
      = SaveLoop env (Suc 0 + unat (range_counter st') + 1) st' (drop (unat (range_counter st')) rest)"
    by (rule SaveLoop_index) simp_all
  with Inr show ?thesis
    by (simp add: SaveStep_first [OF assms])
qed

lemma database_mono:
  assumes "sorted_wrt (\<lambda>a b. SavedBuffer_key a < SavedBuffer_key b) (a # xs)" and "x \<in> set xs"
  shows "unat (database a) \<le> unat (database x)"
proof -
  from assms have "SavedBuffer_key a < SavedBuffer_key x"
    by simp
  then show ?thesis
    by (auto simp: SavedBuffer_key_def less_prod_def)
qed

lemma later_databases:
  assumes sorted: "sorted_wrt (\<lambda>a b. SavedBuffer_key a < SavedBuffer_key b) (e # s)"
    and x: "x \<in> set (dropWhile (\<lambda>x. database x = database e) s)"
  shows "unat (database e) < unat (database x)"
proof -
  let ?P = "\<lambda>x. database x = database e"
  let ?rest = "dropWhile ?P s"
  from x obtain y ys where rest: "?rest = y # ys"
    by (cases ?rest) auto
  then have ny: "database y \<noteq> database e"
    by (simp add: dropWhile_eq_Cons_conv)
  have sub: "set ?rest \<subseteq> set s"
    by (auto dest: set_dropWhileD)
  have "sorted_wrt (\<lambda>a b. SavedBuffer_key a < SavedBuffer_key b) s"
    using sorted by simp
  then have "sorted_wrt (\<lambda>a b. SavedBuffer_key a < SavedBuffer_key b) (takeWhile ?P s @ ?rest)"
    by simp
  then have "sorted_wrt (\<lambda>a b. SavedBuffer_key a < SavedBuffer_key b) (y # ys)"
    unfolding sorted_wrt_append rest by blast
  then have mono: "unat (database y) \<le> unat (database x)"
    using x rest database_mono [of y ys x] by auto
  have "y \<in> set s"
    using sub rest by auto
  with sorted have "unat (database e) \<le> unat (database y)"
    by (rule database_mono)
  moreover have "unat (database y) \<noteq> unat (database e)"
    using ny by (simp add: word_unat_eq_iff)
  ultimately show ?thesis
    using mono by simp
qed

lemma savedir_written_open:
  assumes "file st = Some n" and "savedir st n = Some f"
  shows "savedir (written bs st) = (savedir st)(n \<mapsto> f\<lparr>contents := contents f @ bs\<rparr>)"
  using assms by (simp add: written_def)

lemma save_database_group:
  assumes i: "i \<noteq> 0"
    and opened: "file st = Some c" "database_counter st = c"
      "savedir st c = Some \<lparr>dbname = nm, contents = []\<rparr>"
    and trackers: "prev_database st = database e" "prev_filenode st = InvalidOid"
      "prev_forknum st = InvalidForkNumber"
    and sorted: "sorted_wrt (\<lambda>a b. SavedBuffer_key a < SavedBuffer_key b) (e # s)"
  shows "\<exists>st1. SaveLoop env i st (e # s)
             = SaveLoop env (i + length (e # takeWhile (\<lambda>x. database x = database e) s)) st1
                 (dropWhile (\<lambda>x. database x = database e) s)
           \<and> savedir st1 = (savedir st)(c \<mapsto> \<lparr>dbname = nm,
                 contents = encode_group InvalidOid InvalidForkNumber
                   (e # takeWhile (\<lambda>x. database x = database e) s)\<rparr>)
           \<and> file st1 = Some c \<and> database_counter st1 = c
           \<and> prev_database st1 = database e"
proof -
  let ?P = "\<lambda>x. database x = database e"
  let ?g = "e # takeWhile ?P s"
  let ?rest = "dropWhile ?P s"
  have split: "e # s = ?g @ ?rest"
    by simp
  have op: "file_open st"
    using opened by (simp add: file_open_def)
  have same: "\<forall>x \<in> set ?g. database x = prev_database st"
    using trackers(1) by (auto dest: set_takeWhileD)
  have sorted_g: "sorted_wrt (\<lambda>a b. SavedBuffer_key a < SavedBuffer_key b) ?g"
    using sorted unfolding split sorted_wrt_append by blast
  have bound: "?rest = [] \<or> database (hd ?rest) \<noteq> prev_database st"
    using hd_dropWhile [of ?P s] trackers(1) by auto
  from SaveLoop_group [OF i op same sorted_g bound trackers(2,3), of env]
  obtain st1 where st1: "SaveLoop env i st (?g @ ?rest) = SaveLoop env (i + length ?g) st1 ?rest"
    "savedir st1 = savedir (written (encode_group InvalidOid InvalidForkNumber ?g) st)"
    "file st1 = file st" "database_counter st1 = database_counter st"
    "prev_database st1 = prev_database st"
    by blast
  have "savedir st1 = (savedir st)(c \<mapsto> \<lparr>dbname = nm,
                 contents = encode_group InvalidOid InvalidForkNumber ?g\<rparr>)"
    unfolding st1(2) savedir_written_open [OF opened(1,3)] by simp
  with st1 opened trackers(1) show ?thesis
    unfolding split [symmetric] by (intro exI [of _ st1]) simp
qed






subsection \<open>A cache without a page of the global objects\<close>







section \<open>The first page of the sorted array\<close>

lemma savedir_written_other:
  "file st = Some c \<Longrightarrow> n \<noteq> c \<Longrightarrow> savedir (written bs st) n = savedir st n"
  by (simp add: written_def split: option.splits)

lemma SaveStep_switch_fail:
  assumes "i \<noteq> 0" and "database buf \<noteq> prev_database st" and "file st \<noteq> None"
    and "get_database_name env (database buf) = None"
  shows "\<exists>e st'. SaveStep env i st buf rest = Inl (e, st')
           \<and> (\<forall>n. n \<noteq> database_counter st + 1 \<longrightarrow> savedir st' n = savedir st n)"
proof -
  have "\<exists>e st'. open_database_savefile env buf st = Inl (e, st')
           \<and> (\<forall>n. n \<noteq> database_counter st + 1 \<longrightarrow> savedir st' n = savedir st n)"
    using assms(3,4)
    by (auto simp: open_database_savefile_def Let_def fileClose_def fileOpen_w_def
        writeDBName_def)
  then obtain e st' where "open_database_savefile env buf st = Inl (e, st')"
    and "\<forall>n. n \<noteq> database_counter st + 1 \<longrightarrow> savedir st' n = savedir st n"
    by blast
  moreover from this(1) have "SaveStep env i st buf rest = Inl (e, st')"
    using assms(1,2) by (simp add: SaveStep_def write_headers_def)
  ultimately show ?thesis by blast
qed

lemma SaveStep_same_db_frame:
  assumes "i \<noteq> 0" and "database buf = prev_database st" and "file_open st"
    and "file st = Some c"
  shows "\<exists>st'. SaveStep env i st buf rest = Inr st' \<and> file_open st' \<and> file st' = Some c
           \<and> database_counter st' = database_counter st
           \<and> (\<forall>n. n \<noteq> c \<longrightarrow> savedir st' n = savedir st n)"
  using assms(3,4)
  by (simp add: SaveStep_same_db [OF assms(1-3)] savedir_written_other)

lemma SaveLoop_frame:
  "i \<noteq> 0 \<Longrightarrow> file_open st \<Longrightarrow> file st = Some (database_counter st) \<Longrightarrow>
   n < database_counter st \<Longrightarrow> saved_file (SaveLoop env i st s) n = savedir st n"
proof (induction "length s" arbitrary: s st i rule: less_induct)
  case less
  show ?case
  proof (cases s)
    case Nil
    then show ?thesis by (simp add: saved_file_def)
  next
    case (Cons buf rest)
    let ?c = "database_counter st"
    show ?thesis
    proof (cases "database buf = prev_database st")
      case True
      from SaveStep_same_db_frame [OF less.prems(1) True less.prems(2,3)]
      obtain st' where step: "SaveStep env i st buf rest = Inr st'"
        and op: "file_open st'" and fil: "file st' = Some ?c"
        and cnt: "database_counter st' = ?c"
        and fr: "\<forall>n. n \<noteq> ?c \<longrightarrow> savedir st' n = savedir st n"
        by blast
      let ?k = "unat (range_counter st')"
      have "saved_file (SaveLoop env (i + ?k + 1) st' (drop ?k rest)) n = savedir st' n"
        using op fil cnt less.prems(4) Cons by (intro less.hyps) simp_all
      moreover have "savedir st' n = savedir st n"
        using fr less.prems(4) by simp
      ultimately show ?thesis
        unfolding Cons by (simp add: step)
    next
      case False
      have fo: "file st \<noteq> None"
        using less.prems(3) by simp
      show ?thesis
      proof (cases "get_database_name env (database buf)")
        case None
        from SaveStep_switch_fail [OF less.prems(1) False fo None]
        obtain e st' where "SaveStep env i st buf rest = Inl (e, st')"
          and "\<forall>n. n \<noteq> ?c + 1 \<longrightarrow> savedir st' n = savedir st n"
          by blast
        with less.prems(4) show ?thesis
          unfolding Cons by (simp add: saved_file_def)
      next
        case (Some nm)
        let ?st2 = "database_opened nm buf st"
        have sw: "SaveLoop env i st (buf # rest) = SaveLoop env i ?st2 (buf # rest)"
          using less.prems(1) False fo Some by (rule SaveLoop_switch)
        have op2: "file_open ?st2" "file ?st2 = Some (?c + 1)"
          "database buf = prev_database ?st2"
          by (simp_all add: database_opened_def file_open_def)
        from SaveStep_same_db_frame [OF less.prems(1) op2(3) op2(1) op2(2)]
        obtain st' where step: "SaveStep env i ?st2 buf rest = Inr st'"
          and op: "file_open st'" and fil: "file st' = Some (?c + 1)"
          and cnt: "database_counter st' = database_counter ?st2"
          and fr: "\<forall>n. n \<noteq> ?c + 1 \<longrightarrow> savedir st' n = savedir ?st2 n"
          by blast
        have cnt2: "database_counter ?st2 = ?c + 1"
          by (simp add: database_opened_def)
        let ?k = "unat (range_counter st')"
        have "saved_file (SaveLoop env (i + ?k + 1) st' (drop ?k rest)) n = savedir st' n"
          using op fil cnt cnt2 less.prems(4) Cons by (intro less.hyps) simp_all
        moreover have "savedir st' n = savedir ?st2 n"
          using fr less.prems(4) by simp
        moreover have "savedir ?st2 n = savedir st n"
          using less.prems(4) by (simp add: database_opened_def)
        ultimately show ?thesis
          unfolding Cons sw by (simp add: step)
      qed
    qed
  qed
qed

lemma SaveLoop_frame_switch:
  assumes i: "i \<noteq> 0" and fo: "file_open st" and fil: "file st = Some (database_counter st)"
    and n: "n \<le> database_counter st"
    and s: "\<forall>x \<in> set s. database x \<noteq> prev_database st"
  shows "saved_file (SaveLoop env i st s) n = savedir st n"
proof (cases s)
  case Nil
  then show ?thesis by (simp add: saved_file_def)
next
  case (Cons buf rest)
  let ?c = "database_counter st"
  from s Cons have d: "database buf \<noteq> prev_database st"
    by simp
  have fn: "file st \<noteq> None"
    using fil by simp
  show ?thesis
  proof (cases "get_database_name env (database buf)")
    case None
    from SaveStep_switch_fail [OF i d fn None]
    obtain e st' where "SaveStep env i st buf rest = Inl (e, st')"
      and "\<forall>n. n \<noteq> ?c + 1 \<longrightarrow> savedir st' n = savedir st n"
      by blast
    with n show ?thesis
      unfolding Cons by (simp add: saved_file_def)
  next
    case (Some nm)
    let ?st2 = "database_opened nm buf st"
    have sw: "SaveLoop env i st (buf # rest) = SaveLoop env i ?st2 (buf # rest)"
      using i d fn Some by (rule SaveLoop_switch)
    have "saved_file (SaveLoop env i ?st2 (buf # rest)) n = savedir ?st2 n"
      using i n by (intro SaveLoop_frame) (simp_all add: database_opened_def file_open_def)
    moreover have "savedir ?st2 n = savedir st n"
      using n by (simp add: database_opened_def)
    ultimately show ?thesis
      unfolding Cons sw by simp
  qed
qed

lemma saved_file_close:
  "saved_file (and_then r (\<lambda>st. if c st then Inl (e, st) else fileClose st)) n = saved_file r n"
  by (cases r) (auto simp: saved_file_def fileClose_def split: option.splits)

lemma head_database_pages:
  assumes sorted: "sorted_wrt (\<lambda>a b. SavedBuffer_key a < SavedBuffer_key b) (e # s)"
  shows "e # takeWhile (\<lambda>x. database x = database e) s
         = filter (\<lambda>x. database x = database e) (e # s)"
proof -
  let ?P = "\<lambda>x. database x = database e"
  have "\<forall>x \<in> set (dropWhile ?P s). \<not> ?P x"
  proof
    fix x assume "x \<in> set (dropWhile ?P s)"
    with sorted have "unat (database e) < unat (database x)"
      by (rule later_databases)
    then show "\<not> ?P x" by auto
  qed
  then have d: "filter ?P (dropWhile ?P s) = []"
    by (rule iffD2 [OF filter_empty_conv])
  have "\<forall>x \<in> set (takeWhile ?P s). ?P x"
    by (auto dest: set_takeWhileD)
  then have t: "filter ?P (takeWhile ?P s) = takeWhile ?P s"
    by (rule iffD2 [OF filter_id_conv])
  have "filter ?P (takeWhile ?P s @ dropWhile ?P s) = takeWhile ?P s"
    by (simp only: filter_append t d append_Nil2)
  then have "filter ?P s = takeWhile ?P s"
    unfolding takeWhile_dropWhile_id .
  then show ?thesis
    by (simp only: filter.simps refl if_True)
qed

text \<open>
  Claim C10. The scan is not empty and holds no page of the global objects. Then the
  first page of the sorted array is not a global one, so the condition of
  \<open>Assert(buf->database == InvalidOid)\<close> is false: a build with assertion checking stops
  there, before any file is opened. A build without it opens save-file 1 under the empty
  name and writes into it the pages of the database of that first page, all of them and
  no others; this is what the directory holds in file 1 when \<open>SaveBuffers\<close> ends,
  whether it returns or fails at a later database.
\<close>

theorem first_database_in_global_file:
  assumes dist: "distinct (scan_buffers cache)"
    and nonempty: "scan_buffers cache \<noteq> []"
    and noglobal: "\<forall>e \<in> set (scan_buffers cache). database e \<noteq> InvalidOid"
  shows "pg_qsort (SavedBufferCmp env) (scan_buffers cache)
           = Inr (sort_key SavedBuffer_key (scan_buffers cache))
       \<and> database (hd (sort_key SavedBuffer_key (scan_buffers cache))) \<noteq> InvalidOid
       \<and> (assert_checking env \<longrightarrow>
            SaveBuffers env cache = Inl (TRAP_FailedAssertion, initial_save_state))
       \<and> (\<not> assert_checking env \<longrightarrow>
            saved_file (SaveBuffers env cache) 1
              = Some \<lparr>dbname = [],
                   contents = encode_group InvalidOid InvalidForkNumber
                     (filter (\<lambda>e. database e
                          = database (hd (sort_key SavedBuffer_key (scan_buffers cache))))
                        (sort_key SavedBuffer_key (scan_buffers cache)))\<rparr>)"
proof -
  let ?scan = "scan_buffers cache"
  let ?s = "sort_key SavedBuffer_key ?scan"
  have q: "pg_qsort (SavedBufferCmp env) ?scan = Inr ?s"
    using dist by (rule pg_qsort_sort_key)
  have set_s: "set ?s = set ?scan"
    by simp
  have sorted_s: "sorted_wrt (\<lambda>a b. SavedBuffer_key a < SavedBuffer_key b) ?s"
    by (rule strictly_sorted_key) (simp_all add: dist)
  from nonempty set_s have "?s \<noteq> []"
    by (metis set_empty)
  then obtain e0 s' where s: "?s = e0 # s'"
    by (cases ?s) auto
  note sorted = sorted_s [unfolded s]
  have "e0 \<in> set ?scan"
    unfolding set_s [symmetric] s by simp
  with noglobal have e0: "database e0 \<noteq> InvalidOid"
    by blast
  let ?P = "\<lambda>x. database x = database e0"
  let ?g0 = "e0 # takeWhile ?P s'"
  let ?rest = "dropWhile ?P s'"
  let ?enc = "encode_group InvalidOid InvalidForkNumber ?g0"
  let ?st0 = "global_opened e0 initial_save_state"
  have trap: "SaveBuffers env cache = Inl (TRAP_FailedAssertion, initial_save_state)"
    if "assert_checking env"
    using that e0
    by (simp add: SaveBuffers_def q s SaveStep_def write_headers_def open_global_savefile_eq)
  have file1: "saved_file (SaveBuffers env cache) 1 = Some \<lparr>dbname = [], contents = ?enc\<rparr>"
    if na: "\<not> assert_checking env"
  proof -
    have first: "SaveLoop env 0 initial_save_state (e0 # s') = SaveLoop env (Suc 0) ?st0 (e0 # s')"
      by (rule SaveLoop_first) (simp add: na)
    have opened: "file ?st0 = Some 1" "database_counter ?st0 = 1"
      "savedir ?st0 1 = Some \<lparr>dbname = [], contents = []\<rparr>"
      "prev_database ?st0 = database e0" "prev_filenode ?st0 = InvalidOid"
      "prev_forknum ?st0 = InvalidForkNumber"
      by (simp_all add: global_opened_def initial_save_state_def)
    have dir0: "(savedir ?st0)(1 \<mapsto> x) = Map.empty(1 \<mapsto> x)" for x
      by (simp add: global_opened_def initial_save_state_def)
    have i1: "Suc 0 \<noteq> 0"
      by simp
    note group = save_database_group [of "Suc 0" ?st0 1 "[]" e0 s' env,
        OF i1 opened sorted, unfolded dir0]
    from group obtain st1
      where st1: "SaveLoop env (Suc 0) ?st0 (e0 # s') = SaveLoop env (Suc 0 + length ?g0) st1 ?rest"
        and dir1: "savedir st1 = Map.empty(1 \<mapsto> \<lparr>dbname = [], contents = ?enc\<rparr>)"
        and fil1: "file st1 = Some 1" and c1: "database_counter st1 = 1"
        and prev1: "prev_database st1 = database e0"
      by (elim exE conjE)
    have later: "\<forall>x \<in> set ?rest. database x \<noteq> prev_database st1"
    proof
      fix x assume "x \<in> set ?rest"
      with sorted have "unat (database e0) < unat (database x)"
        by (rule later_databases)
      then show "database x \<noteq> prev_database st1"
        unfolding prev1 by auto
    qed
    have "saved_file (SaveLoop env (Suc 0 + length ?g0) st1 ?rest) 1 = savedir st1 1"
      using later by (intro SaveLoop_frame_switch) (simp_all add: fil1 c1 dir1 file_open_def)
    then have "saved_file (SaveLoop env 0 initial_save_state ?s) 1
        = Some \<lparr>dbname = [], contents = ?enc\<rparr>"
      unfolding s by (simp only: first st1) (simp add: dir1)
    then show ?thesis
      by (simp add: SaveBuffers_def q saved_file_close)
  qed
  have hd: "hd ?s = e0"
    by (simp add: s)
  have g0: "filter (\<lambda>e. database e = database (hd ?s)) ?s = ?g0"
    unfolding hd unfolding s by (rule head_database_pages [OF sorted, symmetric])
  show ?thesis
    unfolding g0 using q e0 trap file1 by (simp add: hd)
qed

text \<open>
  Witness for C10: the cache whose only page is block 7 of filenode 42 of database 5.
  Without assertion checking the page is in save-file 1 under the empty name; with it
  the save stops at the assertion.
\<close>

theorem first_database_in_global_file_witness:
  "saved_file (SaveBuffers db1_save_env [page_db5]) 1
     = Some \<lparr>dbname = [],
          contents = marker_r # encode32 42 @ marker_f # encode32 0 @ marker_b # encode32 7\<rparr>
   \<and> SaveBuffers (db1_save_env\<lparr>assert_checking := True\<rparr>) [page_db5]
     = Inl (TRAP_FailedAssertion, initial_save_state)"
proof -
  let ?a = "\<lparr>database = 5, filenode = 42, forknum = 0, blocknum = 7\<rparr> :: SavedBuffer"
  have scan: "scan_buffers [page_db5] = [?a]"
    by (simp add: scan_buffers_def page_db5_def)
  have h1: "distinct (scan_buffers [page_db5])"
    unfolding scan by simp
  have h2: "scan_buffers [page_db5] \<noteq> []"
    unfolding scan by simp
  have h3: "\<forall>e \<in> set (scan_buffers [page_db5]). database e \<noteq> InvalidOid"
    unfolding scan by (simp add: InvalidOid_def)
  have enc: "encode_group InvalidOid InvalidForkNumber
      (filter (\<lambda>e. database e = database (hd (sort_key SavedBuffer_key (scan_buffers [page_db5]))))
         (sort_key SavedBuffer_key (scan_buffers [page_db5])))
      = marker_r # encode32 42 @ marker_f # encode32 0 @ marker_b # encode32 7"
    unfolding scan by (simp add: step_bytes_def InvalidOid_def InvalidForkNumber_def)
  have "saved_file (SaveBuffers db1_save_env [page_db5]) 1
     = Some \<lparr>dbname = [],
          contents = marker_r # encode32 42 @ marker_f # encode32 0 @ marker_b # encode32 7\<rparr>"
    using first_database_in_global_file [OF h1 h2 h3, of db1_save_env]
    unfolding enc by (simp add: db1_save_env_def)
  moreover have "SaveBuffers (db1_save_env\<lparr>assert_checking := True\<rparr>) [page_db5]
     = Inl (TRAP_FailedAssertion, initial_save_state)"
    using first_database_in_global_file [OF h1 h2 h3, of "db1_save_env\<lparr>assert_checking := True\<rparr>"]
    by simp
  ultimately show ?thesis by simp
qed

end
